theory Spec2Isabelle
  imports Main
begin

section \<open>Errors\<close>

text \<open>
  The exceptions the module raises or lets through: \<open>TypeError\<close> (not a network),
  \<open>ValueError\<close> (a bad argument, or a state outside the state space) and
  \<open>IndexError\<close> (an array read out of range) and \<open>AttributeError\<close> (an attribute
  read before it was set). A raise is the value \<open>Inl e\<close>.
\<close>

datatype error = TypeError | ValueError | IndexError | AttributeError

section \<open>The attractor and basin decomposition\<close>

text \<open>
  \<open>Landscape.__expound\<close> works on the transitions array \<open>trans\<close> (here \<open>tr\<close>), whose entries are encoded
  states (results of \<open>_unsafe_encode\<close>), hence natural numbers. The local variables that
  live across iterations of the outer loop are collected in a record; \<open>visited\<close> and
  \<open>basins\<close> are the two arrays of \<open>self.volume\<close> entries, \<open>-1\<close> in \<open>basins\<close> standing
  for "no basin yet".
\<close>

record expound_state =
  visited :: "bool list"
  basins :: "int list"
  basin_number :: int
  attractors :: "nat list list"
  initial_state :: nat

text \<open>Number of states not yet visited; it decreases along the inner loop.\<close>

definition unvisited :: "bool list \<Rightarrow> nat" where
  "unvisited vs = length (filter Not vs)"

lemma unvisited_mark:
  "i < length vs \<Longrightarrow> \<not> vs ! i \<Longrightarrow> unvisited (vs[i := True]) < unvisited vs"
proof (induction vs arbitrary: i)
  case Nil
  then show ?case by simp
next
  case (Cons v vs)
  show ?case
  proof (cases i)
    case 0
    with Cons.prems show ?thesis by (simp add: unvisited_def)
  next
    case (Suc j)
    with Cons.prems have "unvisited (vs[j := True]) < unvisited vs"
      by (intro Cons.IH) simp_all
    with Suc show ?thesis by (simp add: unvisited_def)
  qed
qed

text \<open>
  The loop \<open>while not visited[next_state]\<close>: push the current state, move to the next
  one, read its successor and mark it. The stack is a list whose head is the top. The
  result is the visited array, the stack, the last state of the path and the terminus
  (in the source \<open>terminus\<close> and \<open>next_state\<close> always hold the same value). A read
  outside \<open>visited\<close> or \<open>tr\<close> raises.
\<close>

function follow ::
  "nat list \<Rightarrow> bool list \<Rightarrow> nat list \<Rightarrow> nat \<Rightarrow> nat \<Rightarrow> error + (bool list \<times> nat list \<times> nat \<times> nat)"
where
  "follow tr vs state_stack state next_state =
     (if length vs \<le> next_state then Inl IndexError
      else if vs ! next_state then Inr (vs, state_stack, state, next_state)
      else if length tr \<le> next_state then Inl IndexError
      else follow tr (vs[next_state := True]) (state # state_stack)
             next_state (tr ! next_state))"
  by pat_completeness auto
termination
  by (relation "measure (\<lambda>(tr, vs, state_stack, state, next_state). unvisited vs)")
     (auto simp: unvisited_mark)

declare follow.simps [simp del]

text \<open>
  The loop \<open>while len(state_stack) != 0\<close>: pop a state, give it the basin, and while
  \<open>in_cycle\<close> holds add it to the cycle, until the terminus has been added.
\<close>

fun unwind ::
  "nat \<Rightarrow> int \<Rightarrow> int list \<Rightarrow> nat list \<Rightarrow> bool \<Rightarrow> nat list \<Rightarrow> int list \<times> nat list \<times> bool"
where
  "unwind terminus basin bs cycle in_cycle [] = (bs, cycle, in_cycle)"
| "unwind terminus basin bs cycle in_cycle (state # state_stack) =
     (if in_cycle
      then unwind terminus basin (bs[state := basin]) (cycle @ [state]) (terminus \<noteq> state)
             state_stack
      else unwind terminus basin (bs[state := basin]) cycle False state_stack)"

text \<open>The loop that advances \<open>initial_state\<close> past the visited states.\<close>

function scan :: "bool list \<Rightarrow> nat \<Rightarrow> nat" where
  "scan vs i = (if i < length vs \<and> vs ! i then scan vs (Suc i) else i)"
  by pat_completeness auto
termination
  by (relation "measure (\<lambda>(vs, i). length vs - i)") auto

declare scan.simps [simp del]

text \<open>
  One iteration of the outer loop, entered with \<open>initial_state < len(tr)\<close>.
  \<open>visited\<close> and \<open>basins\<close> are created with the same number of entries, so a state
  that \<open>visited\<close> accepted is a valid index of \<open>basins\<close>.
\<close>

definition expound_iter :: "nat list \<Rightarrow> expound_state \<Rightarrow> error + expound_state" where
  "expound_iter tr s =
     (let state = initial_state s in
      if length tr \<le> state \<or> length (visited s) \<le> state then Inl IndexError
      else
        case follow tr ((visited s)[state := True]) [] state (tr ! state) of
          Inl e \<Rightarrow> Inl e
        | Inr (vs, state_stack, state', terminus) \<Rightarrow>
            if length (basins s) \<le> terminus then Inl IndexError
            else
              let fresh = (basins s ! terminus = - 1);
                  basin = (if fresh then basin_number s else basins s ! terminus);
                  cycle = (if fresh then [state'] else []);
                  in_cycle = (fresh \<and> terminus \<noteq> state');
                  (bs, cycle', in_cycle') =
                     unwind terminus basin ((basins s)[state' := basin]) cycle in_cycle
                       state_stack
              in Inr \<lparr> visited = vs,
                       basins = bs,
                       basin_number = (if fresh then basin_number s + 1 else basin_number s),
                       attractors = (if cycle' \<noteq> [] then attractors s @ [cycle']
                                     else attractors s),
                       initial_state = scan vs (initial_state s) \<rparr>)"

lemma follow_ext:
  "follow tr vs stk state nx = Inr (vs', stk', state', t) \<Longrightarrow>
   \<exists>Q. state' # stk' = Q @ state # stk \<and> distinct Q \<and> length vs' = length vs \<and>
       (\<forall>x \<in> set Q. x < length vs \<and> \<not> vs ! x) \<and>
       (\<forall>i < length vs. vs' ! i \<longleftrightarrow> vs ! i \<or> i \<in> set Q) \<and>
       t < length vs \<and> vs' ! t"
proof (induction tr vs stk state nx rule: follow.induct)
  case (1 tr vs stk state nx)
  show ?case
  proof (cases "length vs \<le> nx")
    case True
    with "1.prems" show ?thesis by (simp add: follow.simps)
  next
    case inr: False
    show ?thesis
    proof (cases "vs ! nx")
      case True
      with inr "1.prems" have "vs' = vs" "stk' = stk" "state' = state" "t = nx"
        by (simp_all add: follow.simps)
      with inr True show ?thesis by simp
    next
      case False
      show ?thesis
      proof (cases "length tr \<le> nx")
        case True
        with inr False "1.prems" show ?thesis by (simp add: follow.simps)
      next
        case intr: False
        from "1.prems" inr False intr
        have rec: "follow tr (vs[nx := True]) (state # stk) nx (tr ! nx) = Inr (vs', stk', state', t)"
          by (subst (asm) follow.simps) simp
        from "1.IH" [OF inr False intr rec]
        obtain Q where Q: "state' # stk' = Q @ nx # state # stk" "distinct Q"
          "length vs' = length vs"
          "\<forall>x \<in> set Q. x < length vs \<and> \<not> vs[nx := True] ! x"
          "\<forall>i < length vs. vs' ! i \<longleftrightarrow> vs[nx := True] ! i \<or> i \<in> set Q"
          "t < length vs" "vs' ! t"
          by auto
        have nxQ: "nx \<notin> set Q"
          using Q(4) inr by auto
        have a: "state' # stk' = (Q @ [nx]) @ state # stk" using Q(1) by simp
        have b: "distinct (Q @ [nx])" using Q(2) nxQ by simp
        have c: "\<forall>x \<in> set (Q @ [nx]). x < length vs \<and> \<not> vs ! x"
        proof
          fix x assume "x \<in> set (Q @ [nx])"
          then consider "x = nx" | "x \<in> set Q" by auto
          then show "x < length vs \<and> \<not> vs ! x"
          proof cases
            case 1
            with inr False show ?thesis by simp
          next
            case 2
            with Q(4) have "x < length vs" "\<not> vs[nx := True] ! x" by auto
            then show ?thesis by (cases "x = nx") (simp_all add: nth_list_update)
          qed
        qed
        have d: "\<forall>i < length vs. vs' ! i \<longleftrightarrow> vs ! i \<or> i \<in> set (Q @ [nx])"
          using Q(5) inr by (auto simp: nth_list_update)
        from a b c d Q(3,6,7) show ?thesis by blast
      qed
    qed
  qed
qed

lemma scan_ge: "i \<le> scan vs i"
proof (induction vs i rule: scan.induct)
  case (1 vs i)
  then show ?case by (subst scan.simps) (auto simp: Suc_leD)
qed

lemma scan_gt: "i < length vs \<Longrightarrow> vs ! i \<Longrightarrow> i < scan vs i"
  using scan_ge [of "Suc i" vs] by (subst scan.simps) simp

text \<open>An iteration that does not raise moves the scan pointer forward.\<close>

lemma expound_iter_advances:
  assumes "expound_iter tr s = Inr s'"
  shows "initial_state s < initial_state s'"
proof -
  define i where "i = initial_state s"
  from assms have il: "i < length tr" "i < length (visited s)"
    by (auto simp: expound_iter_def Let_def i_def split: if_splits)
  from assms il obtain vs stk st t where
    f: "follow tr ((visited s)[i := True]) [] i (tr ! i) = Inr (vs, stk, st, t)"
    by (auto simp: expound_iter_def Let_def i_def split: if_splits sum.splits)
  from assms il f have s': "initial_state s' = scan vs i"
    by (auto simp: expound_iter_def Let_def i_def [symmetric] split: if_splits prod.splits)
  from follow_ext [OF f] have "length vs = length (visited s)" "vs ! i"
    using il(2) by auto
  with il(2) have "i < scan vs i" by (intro scan_gt) simp_all
  then show ?thesis by (simp add: s' i_def)
qed

text \<open>The loop \<open>while initial_state < len(trans)\<close>.\<close>

function expound_loop :: "nat list \<Rightarrow> expound_state \<Rightarrow> error + expound_state" where
  "expound_loop tr s =
     (if initial_state s < length tr
      then (case expound_iter tr s of Inl e \<Rightarrow> Inl e | Inr s' \<Rightarrow> expound_loop tr s')
      else Inr s)"
  by pat_completeness auto
termination
proof (relation "measure (\<lambda>(tr, s). length tr - initial_state s)")
  show "wf (measure (\<lambda>(tr, s). length tr - initial_state s))" by simp
next
  fix tr :: "nat list" and s s' :: expound_state
  assume "initial_state s < length tr" "expound_iter tr s = Inr s'"
  then show "((tr, s'), (tr, s)) \<in> measure (\<lambda>(tr, s). length tr - initial_state s)"
    using expound_iter_advances [of tr s s'] by simp
qed

declare expound_loop.simps [simp del]

text \<open>
  The locals as \<open>__expound\<close> creates them, and the whole decomposition: it returns
  what is stored in \<open>__basins\<close> and \<open>__attractors\<close>.
\<close>

definition expound_start :: "nat list \<Rightarrow> expound_state" where
  "expound_start tr =
     \<lparr> visited = replicate (length tr) False,
       basins = replicate (length tr) (- 1),
       basin_number = 0,
       attractors = [],
       initial_state = 0 \<rparr>"

definition expound :: "nat list \<Rightarrow> error + (int list \<times> nat list list)" where
  "expound tr =
     (case expound_loop tr (expound_start tr) of
        Inl e \<Rightarrow> Inl e
      | Inr s \<Rightarrow> Inr (basins s, attractors s))"

section \<open>Networks and state spaces\<close>

text \<open>
  Modelled from the spec: \<open>StateSpace\<close> (\<open>neet/statespace.py\<close> is not among the
  sources). The module uses four capabilities of a state space, taken here as
  parameters: the enumeration of its states in iteration order (\<open>volume\<close> is the number
  of states), the checked \<open>encode\<close>, which raises on a vector that is not a state,
  \<open>_unsafe_encode\<close>, and \<open>decode\<close>, which raises on an index outside the space.
  A state vector is a list of integers.
\<close>

record statespace =
  ss_states :: "int list list"
  ss_encode :: "int list \<Rightarrow> error + nat"
  ss_unsafe_encode :: "int list \<Rightarrow> nat"
  ss_decode :: "int \<Rightarrow> error + int list"

text \<open>
  Modelled from the spec: the network adapter (\<open>neet/interfaces.py\<close> and the network
  classes are not among the sources). \<open>net_is_network\<close> and \<open>net_is_fixed_sized\<close> are
  the answers of \<open>is_network(net)\<close> and \<open>is_fixed_sized(net)\<close>; \<open>net_state_space\<close> is
  \<open>net.state_space()\<close> (argument \<open>None\<close>) or \<open>net.state_space(size)\<close>; \<open>net_update\<close> is
  the checked update, which raises on a vector that is not a state, and
  \<open>net_unsafe_update\<close> the unchecked one. Both update in place in the source; here they
  return the new state.
\<close>

record network =
  net_is_network :: bool
  net_is_fixed_sized :: bool
  net_state_space :: "nat option \<Rightarrow> statespace"
  net_update :: "int list \<Rightarrow> error + int list"
  net_unsafe_update :: "int list \<Rightarrow> int list"

section \<open>The free functions \<open>trajectory\<close> and \<open>transitions\<close>\<close>

text \<open>
  Both are generators. A generator is modelled by what it yields, in order, and how it
  ends: \<open>None\<close> when it is exhausted, \<open>Some e\<close> when it raises \<open>e\<close>. An item is an encoded
  state or a state vector, according to the \<open>encode\<close> flag.
\<close>

datatype item = Encoded nat | Decoded "int list"

type_synonym 'a generator = "'a list \<times> error option"

definition emit :: "statespace \<Rightarrow> bool \<Rightarrow> int list \<Rightarrow> item" where
  "emit state_space encode state =
     (if encode then Encoded (ss_unsafe_encode state_space state) else Decoded state)"

text \<open>The states produced by the loop \<open>for _ in range(1, timesteps)\<close>.\<close>

fun updates :: "(int list \<Rightarrow> int list) \<Rightarrow> nat \<Rightarrow> int list \<Rightarrow> int list list" where
  "updates upd 0 state = []"
| "updates upd (Suc k) state = upd state # updates upd k (upd state)"

definition trajectory :: "network \<Rightarrow> int list \<Rightarrow> int \<Rightarrow> bool \<Rightarrow> item generator" where
  "trajectory net state timesteps encode =
     (if \<not> net_is_network net then ([], Some TypeError)
      else if timesteps < 1 then ([], Some ValueError)
      else
        let state_space =
              (if net_is_fixed_sized net then net_state_space net None
               else net_state_space net (Some (length state)))
        in case net_update net state of
             Inl e \<Rightarrow> ([emit state_space encode state], Some e)
           | Inr state' \<Rightarrow>
               (emit state_space encode state # emit state_space encode state' #
                  map (emit state_space encode)
                    (updates (net_unsafe_update net) (nat (timesteps - 1)) state'),
                None))"

definition transitions :: "network \<Rightarrow> nat option \<Rightarrow> bool \<Rightarrow> item generator" where
  "transitions net size' encode =
     (if \<not> net_is_network net then ([], Some TypeError)
      else if net_is_fixed_sized net \<and> size' \<noteq> None then ([], Some ValueError)
      else if \<not> net_is_fixed_sized net \<and> size' = None then ([], Some ValueError)
      else
        let state_space = net_state_space net size'
        in (map (\<lambda>state. emit state_space encode (net_unsafe_update net state))
              (ss_states state_space), None))"

section \<open>The class \<open>Landscape\<close>\<close>

text \<open>
  The attributes of a landscape: the state space it is (its base class), \<open>__net\<close>,
  \<open>__transitions\<close>, \<open>__expounded\<close>, and \<open>__basins\<close> and \<open>__attractors\<close>, which do not
  exist (\<open>None\<close>) until \<open>__expound\<close> has run.
\<close>

record landscape =
  ls_space :: statespace
  ls_net :: network
  ls_transitions :: "nat list"
  ls_expounded :: bool
  ls_basins :: "int list option"
  ls_attractors :: "nat list list option"

definition Landscape_setup :: "network \<Rightarrow> statespace \<Rightarrow> nat list" where
  "Landscape_setup net state_space =
     map (\<lambda>state. ss_unsafe_encode state_space (net_unsafe_update net state))
       (ss_states state_space)"

definition Landscape_init :: "network \<Rightarrow> nat option \<Rightarrow> error + landscape" where
  "Landscape_init net size' =
     (if \<not> net_is_network net then Inl TypeError
      else if net_is_fixed_sized net \<and> size' \<noteq> None then Inl ValueError
      else if \<not> net_is_fixed_sized net \<and> size' = None then Inl ValueError
      else
        let state_space = net_state_space net size'
        in Inr \<lparr> ls_space = state_space, ls_net = net,
                 ls_transitions = Landscape_setup net state_space,
                 ls_expounded = False, ls_basins = None, ls_attractors = None \<rparr>)"

definition Landscape_expound :: "landscape \<Rightarrow> error + landscape" where
  "Landscape_expound L =
     (case expound (ls_transitions L) of
        Inl e \<Rightarrow> Inl e
      | Inr (bs, as) \<Rightarrow>
          Inr (L\<lparr> ls_basins := Some bs, ls_attractors := Some as, ls_expounded := True \<rparr>))"

text \<open>
  The properties. Reading one returns its value and the landscape as the read leaves it.
\<close>

definition Landscape_transitions :: "landscape \<Rightarrow> nat list \<times> landscape" where
  "Landscape_transitions L = (ls_transitions L, L)"

definition read_attr :: "'a option \<Rightarrow> landscape \<Rightarrow> error + ('a \<times> landscape)" where
  "read_attr field L = (case field of None \<Rightarrow> Inl AttributeError | Some x \<Rightarrow> Inr (x, L))"

definition Landscape_attractors :: "landscape \<Rightarrow> error + (nat list list \<times> landscape)" where
  "Landscape_attractors L =
     (if \<not> ls_expounded L
      then (case Landscape_expound L of
              Inl e \<Rightarrow> Inl e
            | Inr L' \<Rightarrow> read_attr (ls_attractors L') L')
      else read_attr (ls_attractors L) L)"

definition Landscape_basins :: "landscape \<Rightarrow> error + (int list \<times> landscape)" where
  "Landscape_basins L =
     (if \<not> ls_expounded L
      then (case Landscape_expound L of
              Inl e \<Rightarrow> Inl e
            | Inr L' \<Rightarrow> read_attr (ls_basins L') L')
      else read_attr (ls_basins L) L)"

subsection \<open>\<open>Landscape.trajectory\<close>\<close>

text \<open>
  The initial state is a list, a numpy array or an integer; the result is a list of
  encoded states or of state vectors.
\<close>

datatype py_init = PyList "int list" | NdArray "int list" | PyInt int

datatype py_path = Indices "int list" | States "int list list"

text \<open>
  Reading the transitions array at an integer: an index from \<open>-len\<close> up to \<open>-1\<close> counts
  from the end, an index outside \<open>[-len, len)\<close> raises \<open>IndexError\<close>.
\<close>

definition np_get :: "nat list \<Rightarrow> int \<Rightarrow> error + nat" where
  "np_get xs i =
     (let n = int (length xs)
      in if 0 \<le> i \<and> i < n then Inr (xs ! nat i)
         else if - n \<le> i \<and> i < 0 then Inr (xs ! nat (n + i))
         else Inl IndexError)"

text \<open>
  The first block of \<open>trajectory\<close>: the initial state as an index, and the \<open>encode\<close>
  flag with its default. The test \<open>init == []\<close> is true of the empty list only: on a
  numpy array \<open>==\<close> compares elementwise and its result is not a true value, so an
  array, empty or not, goes on to \<open>self.encode\<close>.
\<close>

definition resolve_init :: "statespace \<Rightarrow> py_init \<Rightarrow> bool option \<Rightarrow> error + (int \<times> bool)" where
  "resolve_init state_space init encode =
     (case init of
        PyList v \<Rightarrow>
          if v = [] then Inl ValueError
          else (case ss_encode state_space v of
                  Inl e \<Rightarrow> Inl e
                | Inr k \<Rightarrow> Inr (int k, case encode of None \<Rightarrow> False | Some b \<Rightarrow> b))
      | NdArray v \<Rightarrow>
          (case ss_encode state_space v of
             Inl e \<Rightarrow> Inl e
           | Inr k \<Rightarrow> Inr (int k, case encode of None \<Rightarrow> False | Some b \<Rightarrow> b))
      | PyInt i \<Rightarrow> Inr (i, case encode of None \<Rightarrow> True | Some b \<Rightarrow> b))"

text \<open>
  The fixed-step loop \<open>path[i] = trans[path[i-1]]\<close>, for \<open>i\<close> from 1: the entries
  after the first.
\<close>

fun fixed_path :: "nat list \<Rightarrow> nat \<Rightarrow> int \<Rightarrow> error + int list" where
  "fixed_path tr 0 prev = Inr []"
| "fixed_path tr (Suc k) prev =
     (case np_get tr prev of
        Inl e \<Rightarrow> Inl e
      | Inr state \<Rightarrow>
          (case fixed_path tr k (int state) of
             Inl e \<Rightarrow> Inl e
           | Inr rest \<Rightarrow> Inr (int state # rest)))"

text \<open>
  The loop \<open>while state not in path\<close>. Each state it appends is a new index of the
  array, so it ends.
\<close>

lemma np_get_range: "np_get tr state = Inr x \<Longrightarrow> - int (length tr) \<le> state \<and> state < int (length tr)"
  by (auto simp: np_get_def Let_def split: if_splits)

function until_repeat :: "nat list \<Rightarrow> int list \<Rightarrow> int \<Rightarrow> error + int list" where
  "until_repeat tr path state =
     (if state \<in> set path then Inr path
      else (case np_get tr state of
              Inl e \<Rightarrow> Inl e
            | Inr state' \<Rightarrow> until_repeat tr (path @ [state]) (int state')))"
  by pat_completeness auto
termination
proof (relation "measure (\<lambda>(tr, path, state).
         card ({- int (length tr) ..< int (length tr)} - set path))")
  show "wf (measure (\<lambda>(tr, path, state).
         card ({- int (length tr) ..< int (length tr)} - set path)))"
    by simp
next
  fix tr :: "nat list" and path :: "int list" and state :: int and x :: nat
  assume new: "state \<notin> set path" and g: "np_get tr state = Inr x"
  let ?A = "{- int (length tr) ..< int (length tr)}"
  from np_get_range [OF g] have mem: "state \<in> ?A - set path" using new by simp
  have fin: "finite (?A - set path)" by simp
  have "?A - set (path @ [state]) = (?A - set path) - {state}" by auto
  with card_Diff1_less [OF fin mem]
  have "card (?A - set (path @ [state])) < card (?A - set path)"
    by (simp only:)
  then show "((tr, path @ [state], int x), (tr, path, state))
      \<in> measure (\<lambda>(tr, path, state). card ({- int (length tr) ..< int (length tr)} - set path))"
    by simp
qed

declare until_repeat.simps [simp del]

text \<open>The comprehension \<open>[decode(state) for state in path]\<close>.\<close>

fun decode_all :: "(int \<Rightarrow> error + int list) \<Rightarrow> int list \<Rightarrow> error + int list list" where
  "decode_all dec [] = Inr []"
| "decode_all dec (state # path) =
     (case dec state of
        Inl e \<Rightarrow> Inl e
      | Inr v \<Rightarrow>
          (case decode_all dec path of
             Inl e \<Rightarrow> Inl e
           | Inr vs \<Rightarrow> Inr (v # vs)))"

text \<open>The middle block of \<open>trajectory\<close>: the path of encoded states.\<close>

definition trajectory_path :: "nat list \<Rightarrow> int \<Rightarrow> int option \<Rightarrow> error + int list" where
  "trajectory_path tr init timesteps =
     (case timesteps of
        Some t \<Rightarrow>
          if t < 1 then Inl ValueError
          else (case fixed_path tr (nat t) init of
                  Inl e \<Rightarrow> Inl e
                | Inr rest \<Rightarrow> Inr (init # rest))
      | None \<Rightarrow>
          (case np_get tr init of
             Inl e \<Rightarrow> Inl e
           | Inr state \<Rightarrow> until_repeat tr [init] (int state)))"

text \<open>The last block of \<open>trajectory\<close>: the path as it is returned.\<close>

definition present :: "statespace \<Rightarrow> bool \<Rightarrow> int list \<Rightarrow> error + py_path" where
  "present state_space encode path =
     (if \<not> encode
      then (case decode_all (ss_decode state_space) path of
              Inl e \<Rightarrow> Inl e
            | Inr vs \<Rightarrow> Inr (States vs))
      else Inr (Indices path))"

definition Landscape_trajectory ::
  "landscape \<Rightarrow> py_init \<Rightarrow> int option \<Rightarrow> bool option \<Rightarrow> error + py_path"
where
  "Landscape_trajectory L init timesteps encode =
     (case resolve_init (ls_space L) init encode of
        Inl e \<Rightarrow> Inl e
      | Inr (init', encode') \<Rightarrow>
          (case trajectory_path (ls_transitions L) init' timesteps of
             Inl e \<Rightarrow> Inl e
           | Inr path \<Rightarrow> present (ls_space L) encode' path))"

section \<open>Notions used in the properties\<close>

subsection \<open>Transitions, paths and cycles\<close>

text \<open>
  The transitions array of a landscape holds \<open>encode(update(state))\<close> for each of
  the \<open>volume\<close> states: every entry is an index of the array.
\<close>

definition valid_trans :: "nat list \<Rightarrow> bool" where
  "valid_trans tr = (\<forall>x \<in> set tr. x < length tr)"

text \<open>
  A path as the stack holds it, last state first: each state is the successor of the
  one below it.
\<close>

fun chain :: "nat list \<Rightarrow> nat list \<Rightarrow> bool" where
  "chain tr [] = True"
| "chain tr [x] = True"
| "chain tr (x # y # r) = (tr ! y = x \<and> chain tr (y # r))"

text \<open>The states popped up to and including the terminus.\<close>

fun prefix_to :: "nat \<Rightarrow> nat list \<Rightarrow> nat list" where
  "prefix_to t [] = []"
| "prefix_to t (x # xs) = x # (if x = t then [] else prefix_to t xs)"

text \<open>
  What an iteration does, in terms of the path \<open>P\<close> it walked (last state first) and
  the terminus \<open>t\<close> it stopped at.
\<close>

definition iteration_of :: "nat list \<Rightarrow> expound_state \<Rightarrow> nat list \<Rightarrow> nat \<Rightarrow> expound_state \<Rightarrow> bool" where
  "iteration_of tr s P t s' \<longleftrightarrow>
     P \<noteq> [] \<and> last P = initial_state s \<and> distinct P \<and> chain tr P \<and> tr ! hd P = t \<and>
     t < length tr \<and> (\<forall>x \<in> set P. x < length tr \<and> \<not> visited s ! x) \<and>
     (t \<in> set P \<or> visited s ! t) \<and>
     length (visited s') = length tr \<and>
     (\<forall>i < length tr. visited s' ! i \<longleftrightarrow> visited s ! i \<or> i \<in> set P) \<and>
     length (basins s') = length tr \<and>
     (\<forall>i < length tr. basins s' ! i =
        (if i \<in> set P then (if basins s ! t = - 1 then basin_number s else basins s ! t)
         else basins s ! i)) \<and>
     basin_number s' = (if basins s ! t = - 1 then basin_number s + 1 else basin_number s) \<and>
     attractors s' = (if basins s ! t = - 1 then attractors s @ [prefix_to t P] else attractors s) \<and>
     initial_state s' = scan (visited s') (initial_state s) \<and>
     follow tr ((visited s)[initial_state s := True]) [] (initial_state s)
       (tr ! initial_state s) = Inr (visited s', tl P, hd P, t)"

text \<open>
  The cycle through a state as the specification describes it: start at the terminus
  and walk forward along the transitions, collecting states, until the terminus comes
  back. A cycle has at most \<open>volume\<close> states, which bounds the walk.
\<close>

fun walk :: "nat list \<Rightarrow> nat \<Rightarrow> nat \<Rightarrow> nat \<Rightarrow> nat list" where
  "walk tr t 0 x = []"
| "walk tr t (Suc k) x = (if x = t then [] else x # walk tr t k (tr ! x))"

definition cycle_walk :: "nat list \<Rightarrow> nat \<Rightarrow> nat list" where
  "cycle_walk tr t = t # walk tr t (length tr) (tr ! t)"

subsection \<open>The states of the decomposition\<close>

text \<open>
  Between two iterations: the states below the scan pointer are visited; a state has a
  basin exactly when it is visited; the visited states are closed under the transitions,
  which keep the basin; basin ids are below the counter, which counts the recorded
  cycles; every visited state reaches the cycle of its basin; and every recorded cycle
  is closed under the transitions, lies in its own basin, and is the walk from its last
  entry read backwards.
\<close>

definition expound_inv :: "nat list \<Rightarrow> expound_state \<Rightarrow> bool" where
  "expound_inv tr s \<longleftrightarrow>
     length (visited s) = length tr \<and> length (basins s) = length tr \<and>
     initial_state s \<le> length tr \<and>
     (\<forall>j < initial_state s. visited s ! j) \<and>
     (initial_state s < length tr \<longrightarrow> \<not> visited s ! initial_state s) \<and>
     basin_number s = int (length (attractors s)) \<and>
     (\<forall>i < length tr. \<not> visited s ! i \<longrightarrow> basins s ! i = - 1) \<and>
     (\<forall>i < length tr. visited s ! i \<longrightarrow>
        visited s ! (tr ! i) \<and> basins s ! (tr ! i) = basins s ! i \<and>
        0 \<le> basins s ! i \<and> basins s ! i < basin_number s \<and>
        (\<exists>m. ((!) tr ^^ m) i \<in> set (attractors s ! nat (basins s ! i)))) \<and>
     (\<forall>k < length (attractors s).
        attractors s ! k \<noteq> [] \<and>
        attractors s ! k = rev (cycle_walk tr (last (attractors s ! k))) \<and>
        (\<forall>x \<in> set (attractors s ! k).
           x < length tr \<and> basins s ! x = int k \<and> tr ! x \<in> set (attractors s ! k)))"

text \<open>
  The locals after \<open>k\<close> iterations of the outer loop (the loop stays where it is once
  the scan pointer has left the array): the states the decomposition goes through.
\<close>

fun expound_after :: "nat list \<Rightarrow> nat \<Rightarrow> error + expound_state" where
  "expound_after tr 0 = Inr (expound_start tr)"
| "expound_after tr (Suc k) =
     (case expound_after tr k of
        Inl e \<Rightarrow> Inl e
      | Inr s \<Rightarrow> if initial_state s < length tr then expound_iter tr s else Inr s)"

text \<open>
  A cycle of the transitions: a non-empty list of distinct states, closed under the
  transitions, on which every state leads to every state (itself included) in one or
  more steps. And what the decomposition keeps true of every cycle it records: each
  entry is the successor of the next one, and the first entry leads back to the last.
\<close>

definition is_cycle :: "nat list \<Rightarrow> nat list \<Rightarrow> bool" where
  "is_cycle tr c \<longleftrightarrow>
     c \<noteq> [] \<and> distinct c \<and>
     (\<forall>x \<in> set c. x < length tr \<and> tr ! x \<in> set c \<and>
        (\<forall>y \<in> set c. \<exists>m > 0. ((!) tr ^^ m) x = y))"

definition cycles_inv :: "nat list \<Rightarrow> expound_state \<Rightarrow> bool" where
  "cycles_inv tr s \<longleftrightarrow>
     (\<forall>k < length (attractors s).
        chain tr (attractors s ! k) \<and> distinct (attractors s ! k) \<and>
        tr ! hd (attractors s ! k) = last (attractors s ! k))"

subsection \<open>Trajectories\<close>

text \<open>The first \<open>k\<close> states of the orbit of \<open>s\<close> under the transitions.\<close>

definition orbit :: "nat list \<Rightarrow> nat \<Rightarrow> nat \<Rightarrow> int list" where
  "orbit tr s k = map (\<lambda>j. int (((!) tr ^^ j) s)) [0..<k]"

text \<open>The number of entries of a returned path, and its first entry.\<close>

definition entries :: "py_path \<Rightarrow> nat" where
  "entries p = (case p of Indices path \<Rightarrow> length path | States vs \<Rightarrow> length vs)"

definition starts_with :: "statespace \<Rightarrow> py_path \<Rightarrow> int \<Rightarrow> bool" where
  "starts_with state_space p i =
     (case p of
        Indices path \<Rightarrow> path \<noteq> [] \<and> hd path = i
      | States vs \<Rightarrow> vs \<noteq> [] \<and> ss_decode state_space i = Inr (hd vs))"

subsection \<open>Argument checks\<close>

text \<open>
  A size given for a fixed-sized network, or none given for a variable-sized one.
\<close>

definition size_mismatch :: "network \<Rightarrow> nat option \<Rightarrow> bool" where
  "size_mismatch net size' \<longleftrightarrow>
     (net_is_fixed_sized net \<and> size' \<noteq> None) \<or> (\<not> net_is_fixed_sized net \<and> size' = None)"

subsection \<open>Reading the properties of a landscape\<close>

text \<open>
  A client reads properties of a landscape one after the other. A read names the
  property; it answers with the value read and leaves the landscape in some state, in
  which the next read takes place.
\<close>

datatype access = ReadTransitions | ReadAttractors | ReadBasins

datatype reading = GotTransitions "nat list" | GotAttractors "nat list list" | GotBasins "int list"

definition read_property :: "landscape \<Rightarrow> access \<Rightarrow> error + (reading \<times> landscape)" where
  "read_property L a =
     (case a of
        ReadTransitions \<Rightarrow>
          (case Landscape_transitions L of (x, L') \<Rightarrow> Inr (GotTransitions x, L'))
      | ReadAttractors \<Rightarrow>
          (case Landscape_attractors L of
             Inl e \<Rightarrow> Inl e
           | Inr (x, L') \<Rightarrow> Inr (GotAttractors x, L'))
      | ReadBasins \<Rightarrow>
          (case Landscape_basins L of
             Inl e \<Rightarrow> Inl e
           | Inr (x, L') \<Rightarrow> Inr (GotBasins x, L')))"

fun read_all :: "landscape \<Rightarrow> access list \<Rightarrow> error + (reading list \<times> landscape)" where
  "read_all L [] = Inr ([], L)"
| "read_all L (a # accs) =
     (case read_property L a of
        Inl e \<Rightarrow> Inl e
      | Inr (r, L') \<Rightarrow>
          (case read_all L' accs of
             Inl e \<Rightarrow> Inl e
           | Inr (rs, L'') \<Rightarrow> Inr (r # rs, L'')))"

text \<open>
  The answer expected for a read, given the transitions and the result of the
  decomposition; and the landscape after \<open>__expound\<close> has stored that result.
\<close>

definition cached :: "nat list \<Rightarrow> int list \<Rightarrow> nat list list \<Rightarrow> access \<Rightarrow> reading" where
  "cached tr bs as a =
     (case a of
        ReadTransitions \<Rightarrow> GotTransitions tr
      | ReadAttractors \<Rightarrow> GotAttractors as
      | ReadBasins \<Rightarrow> GotBasins bs)"

definition expounded_with :: "landscape \<Rightarrow> int list \<Rightarrow> nat list list \<Rightarrow> landscape" where
  "expounded_with L bs as =
     L\<lparr> ls_basins := Some bs, ls_attractors := Some as, ls_expounded := True \<rparr>"

subsection \<open>An example network\<close>

text \<open>
  Two Boolean nodes, the first coordinate least significant, with the transitions
  \<open>[1, 3, 3, 3]\<close> of scenario 1.
\<close>

definition example_space :: statespace where
  "example_space =
     \<lparr> ss_states = [[0, 0], [1, 0], [0, 1], [1, 1]],
       ss_encode = (\<lambda>v. if v \<in> set [[0, 0], [1, 0], [0, 1], [1, 1]]
                         then Inr (nat (v ! 0 + 2 * v ! 1)) else Inl ValueError),
       ss_unsafe_encode = (\<lambda>v. nat (v ! 0 + 2 * v ! 1)),
       ss_decode = (\<lambda>i. if 0 \<le> i \<and> i < 4 then Inr [i mod 2, i div 2] else Inl ValueError) \<rparr>"

definition example_update :: "int list \<Rightarrow> int list" where
  "example_update v = [1, (if v ! 0 = 1 \<or> v ! 1 = 1 then 1 else 0)]"

definition example_net :: network where
  "example_net =
     \<lparr> net_is_network = True, net_is_fixed_sized = True,
       net_state_space = (\<lambda>size'. example_space),
       net_update = (\<lambda>v. if v \<in> set (ss_states example_space)
                          then Inr (example_update v) else Inl ValueError),
       net_unsafe_update = example_update \<rparr>"

definition example_landscape :: landscape where
  "example_landscape =
     \<lparr> ls_space = example_space, ls_net = example_net, ls_transitions = [1, 3, 3, 3],
       ls_expounded = False, ls_basins = None, ls_attractors = None \<rparr>"

section \<open>Properties of the decomposition\<close>

subsection \<open>The inner loops\<close>

lemma valid_transD: "valid_trans tr \<Longrightarrow> i < length tr \<Longrightarrow> tr ! i < length tr"
  by (simp add: valid_trans_def)

lemma follow_total:
  "valid_trans tr \<Longrightarrow> length vs = length tr \<Longrightarrow> nx < length tr \<Longrightarrow>
   \<exists>r. follow tr vs stk state nx = Inr r"
proof (induction tr vs stk state nx rule: follow.induct)
  case (1 tr vs stk state nx)
  show ?case
  proof (cases "vs ! nx")
    case True
    with "1.prems" show ?thesis by (simp add: follow.simps)
  next
    case False
    have "\<exists>r. follow tr (vs[nx := True]) (state # stk) nx (tr ! nx) = Inr r"
      using "1.prems" False by (intro "1.IH") (simp_all add: valid_transD)
    with "1.prems" False show ?thesis by (subst follow.simps) simp
  qed
qed

lemma follow_chain:
  "follow tr vs stk state nx = Inr (vs', stk', state', t) \<Longrightarrow> nx = tr ! state \<Longrightarrow>
   chain tr (state # stk) \<Longrightarrow> chain tr (state' # stk') \<and> t = tr ! state'"
proof (induction tr vs stk state nx rule: follow.induct)
  case (1 tr vs stk state nx)
  show ?case
  proof (cases "vs ! nx")
    case True
    from "1.prems"(1) have "length vs \<le> nx \<or> (vs' = vs \<and> stk' = stk \<and> state' = state \<and> t = nx)"
      using True by (subst (asm) follow.simps) (simp split: if_splits)
    moreover from "1.prems"(1) have "\<not> length vs \<le> nx"
      by (subst (asm) follow.simps) (simp split: if_splits)
    ultimately show ?thesis using "1.prems"(2,3) by simp
  next
    case False
    from "1.prems"(1) False have g: "\<not> length vs \<le> nx" "\<not> length tr \<le> nx"
      by (subst (asm) follow.simps, simp split: if_splits)+
    from "1.prems"(1) False g
    have rec: "follow tr (vs[nx := True]) (state # stk) nx (tr ! nx) = Inr (vs', stk', state', t)"
      by (subst (asm) follow.simps) simp
    show ?thesis
      using "1.IH" [OF g(1) False g(2) rec] "1.prems"(2,3) by simp
  qed
qed

lemma scan_le: "i \<le> length vs \<Longrightarrow> scan vs i \<le> length vs"
proof (induction vs i rule: scan.induct)
  case (1 vs i)
  then show ?case by (subst scan.simps) auto
qed

lemma scan_between: "i \<le> j \<Longrightarrow> j < scan vs i \<Longrightarrow> vs ! j"
proof (induction vs i rule: scan.induct)
  case (1 vs i)
  show ?case
  proof (cases "i < length vs \<and> vs ! i")
    case True
    with "1.prems" have "j < scan vs (Suc i)" by (subst (asm) scan.simps) simp
    with "1.IH" [OF True] True "1.prems"(1) show ?thesis
      by (cases "i = j") auto
  next
    case False
    with "1.prems" show ?thesis by (subst (asm) scan.simps) simp
  qed
qed

lemma scan_stop: "scan vs i < length vs \<Longrightarrow> \<not> vs ! scan vs i"
proof (induction vs i rule: scan.induct)
  case (1 vs i)
  show ?case
  proof (cases "i < length vs \<and> vs ! i")
    case True
    with "1.prems" "1.IH" show ?thesis by (subst scan.simps, subst (asm) scan.simps) simp
  next
    case False
    with "1.prems" show ?thesis by (subst scan.simps, subst (asm) scan.simps) auto
  qed
qed

lemma unwind_spec:
  "unwind t b bs cyc ic stk = (bs', cyc', ic') \<Longrightarrow>
   length bs' = length bs \<and>
   (\<forall>i < length bs. bs' ! i = (if i \<in> set stk then b else bs ! i)) \<and>
   cyc' = cyc @ (if ic then prefix_to t stk else [])"
proof (induction stk arbitrary: bs cyc ic)
  case Nil
  then show ?case by simp
next
  case (Cons x stk)
  show ?case
  proof (cases ic)
    case True
    with Cons.prems have "unwind t b (bs[x := b]) (cyc @ [x]) (t \<noteq> x) stk = (bs', cyc', ic')"
      by simp
    from Cons.IH [OF this] True show ?thesis by (auto simp: nth_list_update)
  next
    case False
    with Cons.prems have "unwind t b (bs[x := b]) cyc False stk = (bs', cyc', ic')"
      by simp
    from Cons.IH [OF this] False show ?thesis by (auto simp: nth_list_update)
  qed
qed

subsection \<open>One iteration of the outer loop\<close>

lemma prefix_to_nonempty: "P \<noteq> [] \<Longrightarrow> prefix_to t P \<noteq> []"
  by (cases P) simp_all

lemma expound_iter_spec:
  assumes v: "valid_trans tr"
    and lv: "length (visited s) = length tr"
    and lb: "length (basins s) = length tr"
    and i0: "initial_state s < length tr"
    and nv: "\<not> visited s ! initial_state s"
  shows "\<exists>P t s'. expound_iter tr s = Inr s' \<and> iteration_of tr s P t s'"
proof -
  define i where "i = initial_state s"
  define vs0 where "vs0 = (visited s)[i := True]"
  have il: "i < length tr" using i0 by (simp add: i_def)
  have l0: "length vs0 = length tr" by (simp add: vs0_def lv)
  have "tr ! i < length tr" using v il by (rule valid_transD)
  from follow_total [OF v l0 this, of "[]" i]
  obtain vs' stk' st' t where f: "follow tr vs0 [] i (tr ! i) = Inr (vs', stk', st', t)"
    by (metis prod_cases4)
  from follow_ext [OF f] obtain Q where Q: "st' # stk' = Q @ [i]" "distinct Q"
    "length vs' = length vs0" "\<forall>x \<in> set Q. x < length vs0 \<and> \<not> vs0 ! x"
    "\<forall>j < length vs0. vs' ! j \<longleftrightarrow> vs0 ! j \<or> j \<in> set Q"
    "t < length vs0" "vs' ! t"
    by auto
  from follow_chain [OF f] have ch: "chain tr (st' # stk')" and t: "t = tr ! st'"
    by simp_all
  define P where "P = st' # stk'"
  have PQ: "P = Q @ [i]" using Q(1) by (simp add: P_def)
  have iQ: "i \<notin> set Q"
    using Q(4) il lv by (auto simp: vs0_def)
  have dP: "distinct P" using Q(2) iQ by (simp add: PQ)
  have nvP: "\<forall>x \<in> set P. x < length tr \<and> \<not> visited s ! x"
  proof
    fix x assume "x \<in> set P"
    then consider "x = i" | "x \<in> set Q" by (auto simp: PQ)
    then show "x < length tr \<and> \<not> visited s ! x"
    proof cases
      case 1
      then show ?thesis using il nv by (simp add: i_def)
    next
      case 2
      with Q(4) have a: "x < length vs0" "\<not> vs0 ! x" by auto
      with iQ 2 have "x \<noteq> i" by auto
      with a show ?thesis using l0 lv by (simp add: vs0_def)
    qed
  qed
  have vs': "\<forall>j < length tr. vs' ! j \<longleftrightarrow> visited s ! j \<or> j \<in> set P"
  proof (intro allI impI)
    fix j assume j: "j < length tr"
    with Q(5) l0 have "vs' ! j \<longleftrightarrow> vs0 ! j \<or> j \<in> set Q" by simp
    also have "vs0 ! j \<longleftrightarrow> visited s ! j \<or> j = i"
      using j lv il by (auto simp: vs0_def nth_list_update)
    finally show "vs' ! j \<longleftrightarrow> visited s ! j \<or> j \<in> set P" by (auto simp: PQ)
  qed
  have tl: "t < length tr" using Q(6) l0 by simp
  have tP: "t \<in> set P \<or> visited s ! t" using vs' tl Q(7) by auto
  define fresh where "fresh = (basins s ! t = - 1)"
  define basin where "basin = (if fresh then basin_number s else basins s ! t)"
  obtain bs' cyc' ic' where u:
    "unwind t basin ((basins s)[st' := basin]) (if fresh then [st'] else [])
        (fresh \<and> t \<noteq> st') stk' = (bs', cyc', ic')"
    by (metis prod_cases3)
  from unwind_spec [OF u] have lbs: "length bs' = length tr"
    and bs1: "\<forall>j < length tr. bs' ! j = (if j \<in> set stk' then basin else (basins s)[st' := basin] ! j)"
    and cyc: "cyc' = (if fresh then [st'] else []) @ (if fresh \<and> t \<noteq> st' then prefix_to t stk' else [])"
    by (simp_all add: lb)
  have st'l: "st' < length tr" using nvP by (simp add: P_def)
  have bs': "\<forall>j < length tr. bs' ! j = (if j \<in> set P then basin else basins s ! j)"
    using bs1 st'l lb by (auto simp: P_def nth_list_update)
  have cyc2: "cyc' = (if fresh then prefix_to t P else [])"
    using cyc by (simp add: P_def)
  have cyc3: "cyc' \<noteq> [] \<longleftrightarrow> fresh"
    using cyc2 by (simp add: P_def)
  define s' where "s' = \<lparr> visited = vs', basins = bs',
     basin_number = (if fresh then basin_number s + 1 else basin_number s),
     attractors = (if cyc' \<noteq> [] then attractors s @ [cyc'] else attractors s),
     initial_state = scan vs' (initial_state s) \<rparr>"
  have e: "expound_iter tr s = Inr s'"
    using il lv lb f tl u
    by (simp add: expound_iter_def Let_def i_def [symmetric] vs0_def [symmetric]
        fresh_def [symmetric] basin_def [symmetric] s'_def)
  have P1: "P \<noteq> []" "hd P = st'" by (simp_all add: P_def)
  have P2: "last P = initial_state s" by (simp add: PQ i_def)
  have chP: "chain tr P" using ch by (simp add: P_def)
  have lvs': "length vs' = length tr" using Q(3) l0 by simp
  have fP: "follow tr ((visited s)[initial_state s := True]) [] (initial_state s)
       (tr ! initial_state s) = Inr (vs', tl P, hd P, t)"
    using f by (simp add: vs0_def i_def P_def)
  have "iteration_of tr s P t s'"
    unfolding iteration_of_def
    using P1 P2 dP chP t tl nvP tP vs' bs' lbs lvs' cyc2 cyc3 fP
    by (simp add: s'_def fresh_def basin_def)
  with e show ?thesis by blast
qed

subsection \<open>Cycles\<close>

lemma chain_tl: "chain tr (x # P) \<Longrightarrow> chain tr P"
  by (cases P) simp_all

lemma chain_succ: "chain tr P \<Longrightarrow> x \<in> set P \<Longrightarrow> x = hd P \<or> tr ! x \<in> set P"
proof (induction tr P rule: chain.induct)
  case (3 tr y z r)
  then show ?case by auto
qed simp_all

lemma chain_reach: "chain tr P \<Longrightarrow> x \<in> set P \<Longrightarrow> \<exists>m. ((!) tr ^^ m) x = hd P"
proof (induction tr P rule: chain.induct)
  case (1 tr)
  then show ?case by simp
next
  case (2 tr y)
  then have "((!) tr ^^ 0) x = hd [y]" by simp
  then show ?case by blast
next
  case (3 tr y z r)
  show ?case
  proof (cases "x = y")
    case True
    then have "((!) tr ^^ 0) x = hd (y # z # r)" by simp
    then show ?thesis by blast
  next
    case False
    with "3.prems" have "x \<in> set (z # r)" "chain tr (z # r)" by simp_all
    with "3.IH" obtain m where "((!) tr ^^ m) x = z" by auto
    with "3.prems"(1) have "((!) tr ^^ Suc m) x = hd (y # z # r)" by simp
    then show ?thesis by blast
  qed
qed

lemma prefix_to_subset: "set (prefix_to t P) \<subseteq> set P"
  by (induction P) auto

lemma prefix_to_hd: "P \<noteq> [] \<Longrightarrow> hd (prefix_to t P) = hd P"
  by (cases P) simp_all

lemma prefix_to_last: "t \<in> set P \<Longrightarrow> last (prefix_to t P) = t"
proof (induction P)
  case Nil
  then show ?case by simp
next
  case (Cons a P)
  show ?case
  proof (cases "a = t")
    case True
    then show ?thesis by simp
  next
    case False
    with Cons.prems have "t \<in> set P" by simp
    moreover from this have "prefix_to t P \<noteq> []" by (cases P) auto
    ultimately show ?thesis using False Cons.IH by simp
  qed
qed

lemma prefix_to_length: "length (prefix_to t P) \<le> length P"
  by (induction P) auto

lemma prefix_to_mem: "t \<in> set P \<Longrightarrow> t \<in> set (prefix_to t P)"
  by (induction P) auto

lemma prefix_to_closed:
  "chain tr P \<Longrightarrow> t \<in> set P \<Longrightarrow> x \<in> set (prefix_to t P) \<Longrightarrow>
   x = hd P \<or> tr ! x \<in> set (prefix_to t P)"
proof (induction tr P rule: chain.induct)
  case (3 tr y z r)
  show ?case
  proof (cases "y = t")
    case True
    with "3.prems" show ?thesis by simp
  next
    case False
    show ?thesis
    proof (cases "x = y")
      case True
      then show ?thesis by simp
    next
      case xy: False
      with False "3.prems" have a: "chain tr (z # r)" "t \<in> set (z # r)" "x \<in> set (prefix_to t (z # r))"
        by simp_all
      from "3.IH" [OF a] have "x = z \<or> tr ! x \<in> set (prefix_to t (z # r))" by simp
      with "3.prems"(1) False show ?thesis by auto
    qed
  qed
qed simp_all

lemma walk_self: "walk tr t k t = []"
  by (cases k) simp_all

lemma walk_prefix:
  "chain tr P \<Longrightarrow> t \<in> set P \<Longrightarrow>
   walk tr t (length (prefix_to t P) - 1 + k) (tr ! t) =
     tl (rev (prefix_to t P)) @ walk tr t k (tr ! hd P)"
proof (induction tr P arbitrary: k rule: chain.induct)
  case (1 tr)
  then show ?case by simp
next
  case (2 tr y)
  then show ?case by simp
next
  case (3 tr y z r)
  show ?case
  proof (cases "y = t")
    case True
    then show ?thesis by simp
  next
    case False
    with "3.prems" have a: "chain tr (z # r)" "t \<in> set (z # r)" and zy: "tr ! z = y"
      by simp_all
    have ne: "prefix_to t (z # r) \<noteq> []" by simp
    then have len: "length (prefix_to t (z # r)) - 1 + Suc k = length (prefix_to t (z # r)) + k"
      by (cases "prefix_to t (z # r)") simp_all
    from "3.IH" [OF a, of "Suc k"]
    have "walk tr t (length (prefix_to t (z # r)) + k) (tr ! t) =
          tl (rev (prefix_to t (z # r))) @ walk tr t (Suc k) y"
      using zy len by simp
    also have "walk tr t (Suc k) y = y # walk tr t k (tr ! y)"
      using False by simp
    finally show ?thesis using False ne by (simp del: prefix_to.simps(2) add: prefix_to.simps(2) [of t y])
  qed
qed

lemma cycle_walk_prefix:
  assumes "chain tr P" "t \<in> set P" "tr ! hd P = t" "distinct P" "\<forall>x \<in> set P. x < length tr"
  shows "rev (prefix_to t P) = cycle_walk tr t"
proof -
  have "length (prefix_to t P) \<le> length P"
    by (rule prefix_to_length)
  moreover have "length P \<le> length tr"
  proof -
    have "set P \<subseteq> {..<length tr}" using assms(5) by auto
    then have "card (set P) \<le> card {..<length tr}" by (intro card_mono) simp_all
    with assms(4) show ?thesis by (simp add: distinct_card)
  qed
  ultimately have "length (prefix_to t P) - 1 \<le> length tr" by simp
  then obtain k where k: "length tr = length (prefix_to t P) - 1 + k"
    using le_Suc_ex by blast
  have "walk tr t (length tr) (tr ! t) = tl (rev (prefix_to t P)) @ walk tr t k (tr ! hd P)"
    unfolding k using assms(1,2) by (rule walk_prefix)
  then have "walk tr t (length tr) (tr ! t) = tl (rev (prefix_to t P))"
    using assms(3) by (simp add: walk_self)
  moreover have "P \<noteq> []" using assms(2) by auto
  then have ne: "prefix_to t P \<noteq> []" by (rule prefix_to_nonempty)
  then have "rev (prefix_to t P) \<noteq> []" "hd (rev (prefix_to t P)) = t"
    using assms(2) prefix_to_last [of t P] by (simp_all add: hd_rev)
  ultimately show ?thesis
    unfolding cycle_walk_def by (metis list.collapse)
qed

subsection \<open>The invariant of the outer loop\<close>

lemma expound_inv_step:
  assumes v: "valid_trans tr" and inv: "expound_inv tr s"
    and it: "iteration_of tr s P t s'"
  shows "expound_inv tr s'"
proof -
  let ?n = "length tr"
  let ?fresh = "basins s ! t = - 1"
  let ?basin = "if ?fresh then basin_number s else basins s ! t"
  from it have P: "P \<noteq> []" "last P = initial_state s" "distinct P" "chain tr P" "tr ! hd P = t"
    "t < ?n" "\<forall>x \<in> set P. x < ?n \<and> \<not> visited s ! x" "t \<in> set P \<or> visited s ! t"
    unfolding iteration_of_def by blast+
  from it have lv': "length (visited s') = ?n"
    and vs': "\<forall>i < ?n. visited s' ! i \<longleftrightarrow> visited s ! i \<or> i \<in> set P"
    and lb': "length (basins s') = ?n"
    and bs': "\<forall>i < ?n. basins s' ! i = (if i \<in> set P then ?basin else basins s ! i)"
    and bn': "basin_number s' = (if ?fresh then basin_number s + 1 else basin_number s)"
    and at': "attractors s' = (if ?fresh then attractors s @ [prefix_to t P] else attractors s)"
    and is': "initial_state s' = scan (visited s') (initial_state s)"
    unfolding iteration_of_def by blast+
  from inv have lv: "length (visited s) = ?n" and lb: "length (basins s) = ?n"
    and i0: "initial_state s \<le> ?n"
    and below: "\<forall>j < initial_state s. visited s ! j"
    and bn: "basin_number s = int (length (attractors s))"
    and unv: "\<forall>i < ?n. \<not> visited s ! i \<longrightarrow> basins s ! i = - 1"
    and vis: "\<forall>i < ?n. visited s ! i \<longrightarrow>
        visited s ! (tr ! i) \<and> basins s ! (tr ! i) = basins s ! i \<and>
        0 \<le> basins s ! i \<and> basins s ! i < basin_number s \<and>
        (\<exists>m. ((!) tr ^^ m) i \<in> set (attractors s ! nat (basins s ! i)))"
    and att: "\<forall>k < length (attractors s).
        attractors s ! k \<noteq> [] \<and>
        attractors s ! k = rev (cycle_walk tr (last (attractors s ! k))) \<and>
        (\<forall>x \<in> set (attractors s ! k).
           x < ?n \<and> basins s ! x = int k \<and> tr ! x \<in> set (attractors s ! k))"
    unfolding expound_inv_def by blast+
  have fresh_iff: "?fresh \<longleftrightarrow> t \<in> set P"
  proof
    assume ?fresh
    with vis P(6) have "\<not> visited s ! t" by force
    with P(8) show "t \<in> set P" by simp
  next
    assume "t \<in> set P"
    with P(7) unv show ?fresh by auto
  qed
  have old_notP: "\<And>i. i < ?n \<Longrightarrow> visited s ! i \<Longrightarrow> i \<notin> set P"
    using P(7) by auto
  have old_bs: "\<And>i. i < ?n \<Longrightarrow> visited s ! i \<Longrightarrow> basins s' ! i = basins s ! i"
    using bs' old_notP by simp
  have new_bs: "\<And>i. i \<in> set P \<Longrightarrow> basins s' ! i = ?basin"
    using bs' P(7) by simp
  have old_att: "\<And>k. k < length (attractors s) \<Longrightarrow> attractors s' ! k = attractors s ! k"
    by (simp add: at' nth_append)
  have basin_rng: "0 \<le> ?basin \<and> ?basin < basin_number s'"
  proof (cases ?fresh)
    case True
    then show ?thesis by (simp add: bn' bn)
  next
    case False
    with fresh_iff P(8) have "visited s ! t" by simp
    with vis P(6) have "0 \<le> basins s ! t \<and> basins s ! t < basin_number s" by simp
    with False show ?thesis by (simp add: bn')
  qed
  have bn_mono: "basin_number s \<le> basin_number s'" by (simp add: bn')
  \<comment> \<open>the scan pointer\<close>
  have c3: "initial_state s' \<le> ?n"
    unfolding is' using i0 lv' by (metis scan_le)
  have c4: "\<forall>j < initial_state s'. visited s' ! j"
  proof (intro allI impI)
    fix j assume j: "j < initial_state s'"
    show "visited s' ! j"
    proof (cases "j < initial_state s")
      case True
      with below have "visited s ! j" by simp
      moreover from True i0 have "j < ?n" by simp
      ultimately show ?thesis using vs' by simp
    next
      case False
      then have "initial_state s \<le> j" by simp
      moreover from j have "j < scan (visited s') (initial_state s)" by (simp add: is')
      ultimately show ?thesis by (rule scan_between)
    qed
  qed
  have c5: "initial_state s' < ?n \<longrightarrow> \<not> visited s' ! initial_state s'"
    unfolding is' using scan_stop [of "visited s'" "initial_state s"] lv' by simp
  have c6: "basin_number s' = int (length (attractors s'))"
    by (simp add: bn' at' bn)
  have c7: "\<forall>i < ?n. \<not> visited s' ! i \<longrightarrow> basins s' ! i = - 1"
    using vs' bs' unv by simp
  \<comment> \<open>the new path reaches its attractor\<close>
  have reachP: "\<exists>m. ((!) tr ^^ m) x \<in> set (attractors s' ! nat ?basin)" if x: "x \<in> set P" for x
  proof -
    from chain_reach [OF P(4) x] obtain m1 where m1: "((!) tr ^^ m1) x = hd P" by blast
    show ?thesis
    proof (cases ?fresh)
      case True
      then have "attractors s' ! nat ?basin = prefix_to t P"
        by (simp add: at' bn)
      moreover have "hd P \<in> set (prefix_to t P)"
        using P(1) by (cases P) simp_all
      ultimately show ?thesis using m1 by metis
    next
      case False
      with fresh_iff P(8) have vt: "visited s ! t" by simp
      with vis P(6) obtain m2 where m2: "((!) tr ^^ m2) t \<in> set (attractors s ! nat (basins s ! t))"
        and rng: "0 \<le> basins s ! t" "basins s ! t < basin_number s"
        by blast
      have "((!) tr ^^ (m2 + Suc m1)) x = ((!) tr ^^ m2) t"
        using m1 P(5) by (simp only: funpow_add o_apply funpow.simps)
      moreover have "attractors s' ! nat ?basin = attractors s ! nat (basins s ! t)"
        using False rng bn by (simp add: at')
      ultimately show ?thesis using m2 by metis
    qed
  qed
  have c8: "\<forall>i < ?n. visited s' ! i \<longrightarrow>
        visited s' ! (tr ! i) \<and> basins s' ! (tr ! i) = basins s' ! i \<and>
        0 \<le> basins s' ! i \<and> basins s' ! i < basin_number s' \<and>
        (\<exists>m. ((!) tr ^^ m) i \<in> set (attractors s' ! nat (basins s' ! i)))"
  proof (intro allI impI)
    fix i assume i: "i < ?n" and vi: "visited s' ! i"
    have ti: "tr ! i < ?n" using v i by (rule valid_transD)
    show "visited s' ! (tr ! i) \<and> basins s' ! (tr ! i) = basins s' ! i \<and>
        0 \<le> basins s' ! i \<and> basins s' ! i < basin_number s' \<and>
        (\<exists>m. ((!) tr ^^ m) i \<in> set (attractors s' ! nat (basins s' ! i)))"
    proof (cases "i \<in> set P")
      case True
      have bi: "basins s' ! i = ?basin" using True by (rule new_bs)
      from chain_succ [OF P(4) True] have "i = hd P \<or> tr ! i \<in> set P" .
      then have "tr ! i = t \<or> tr ! i \<in> set P" using P(5) by auto
      then have a: "visited s' ! (tr ! i) \<and> basins s' ! (tr ! i) = ?basin"
      proof
        assume eq: "tr ! i = t"
        show ?thesis
        proof (cases "t \<in> set P")
          case True
          then show ?thesis using vs' P(6) new_bs eq by simp
        next
          case False
          with P(8) have "visited s ! t" by simp
          moreover from False fresh_iff have "\<not> ?fresh" by simp
          ultimately show ?thesis using vs' P(6) old_bs eq by simp
        qed
      next
        assume "tr ! i \<in> set P"
        then show ?thesis using vs' ti new_bs by simp
      qed
      from reachP [OF True] a bi basin_rng show ?thesis by simp
    next
      case False
      with vs' i vi have old: "visited s ! i" by simp
      with vis i have o: "visited s ! (tr ! i)" "basins s ! (tr ! i) = basins s ! i"
        "0 \<le> basins s ! i" "basins s ! i < basin_number s"
        "\<exists>m. ((!) tr ^^ m) i \<in> set (attractors s ! nat (basins s ! i))"
        by simp_all
      have "attractors s' ! nat (basins s ! i) = attractors s ! nat (basins s ! i)"
        using o(3,4) bn by (intro old_att) simp
      with o old_bs [OF i old] old_bs [OF ti o(1)] vs' ti bn_mono show ?thesis
        by simp
    qed
  qed
  have c9: "\<forall>k < length (attractors s').
        attractors s' ! k \<noteq> [] \<and>
        attractors s' ! k = rev (cycle_walk tr (last (attractors s' ! k))) \<and>
        (\<forall>x \<in> set (attractors s' ! k).
           x < ?n \<and> basins s' ! x = int k \<and> tr ! x \<in> set (attractors s' ! k))"
  proof (intro allI impI)
    fix k assume k: "k < length (attractors s')"
    show "attractors s' ! k \<noteq> [] \<and>
        attractors s' ! k = rev (cycle_walk tr (last (attractors s' ! k))) \<and>
        (\<forall>x \<in> set (attractors s' ! k).
           x < ?n \<and> basins s' ! x = int k \<and> tr ! x \<in> set (attractors s' ! k))"
    proof (cases "k < length (attractors s)")
      case True
      from att True have o: "attractors s ! k \<noteq> []"
        "attractors s ! k = rev (cycle_walk tr (last (attractors s ! k)))"
        "\<forall>x \<in> set (attractors s ! k).
           x < ?n \<and> basins s ! x = int k \<and> tr ! x \<in> set (attractors s ! k)"
        by simp_all
      have "basins s' ! x = int k" if "x \<in> set (attractors s ! k)" for x
      proof -
        from o(3) that have x: "x < ?n" "basins s ! x = int k" by simp_all
        with unv have "visited s ! x" by force
        with x old_bs show ?thesis by simp
      qed
      with o show ?thesis unfolding old_att [OF True] by simp
    next
      case False
      with k have fr: ?fresh and keq: "k = length (attractors s)"
        by (simp_all add: at' split: if_splits)
      have tP: "t \<in> set P" using fr fresh_iff by simp
      have ak: "attractors s' ! k = prefix_to t P" by (simp add: at' fr keq)
      have 1: "prefix_to t P \<noteq> []" using P(1) by (rule prefix_to_nonempty)
      have "\<forall>x \<in> set P. x < ?n" using P(7) by simp
      with P tP have "rev (prefix_to t P) = cycle_walk tr t"
        by (intro cycle_walk_prefix) simp_all
      then have "prefix_to t P = rev (cycle_walk tr t)"
        by (metis rev_rev_ident)
      moreover have "last (prefix_to t P) = t" using tP by (rule prefix_to_last)
      ultimately have 2: "prefix_to t P = rev (cycle_walk tr (last (prefix_to t P)))"
        by (simp only:)
      have 3: "x < ?n \<and> basins s' ! x = int k \<and> tr ! x \<in> set (prefix_to t P)"
        if x: "x \<in> set (prefix_to t P)" for x
      proof -
        from x prefix_to_subset have xP: "x \<in> set P" by blast
        from prefix_to_closed [OF P(4) tP x] have "x = hd P \<or> tr ! x \<in> set (prefix_to t P)" .
        then have "tr ! x \<in> set (prefix_to t P)"
          using P(5) tP prefix_to_mem by auto
        with xP P(7) new_bs fr bn keq show ?thesis by simp
      qed
      from 1 2 3 show ?thesis unfolding ak by blast
    qed
  qed
  from lv' lb' c3 c4 c5 c6 c7 c8 c9 show ?thesis
    unfolding expound_inv_def by blast
qed

subsection \<open>The outer loop\<close>

lemma expound_inv_start: "expound_inv tr (expound_start tr)"
  by (simp add: expound_inv_def expound_start_def)

lemma expound_loop_inv:
  "valid_trans tr \<Longrightarrow> expound_inv tr s \<Longrightarrow>
   \<exists>s'. expound_loop tr s = Inr s' \<and> expound_inv tr s' \<and> initial_state s' = length tr"
proof (induction tr s rule: expound_loop.induct)
  case (1 tr s)
  show ?case
  proof (cases "initial_state s < length tr")
    case True
    from "1.prems"(2) True have "length (visited s) = length tr" "length (basins s) = length tr"
      "\<not> visited s ! initial_state s"
      unfolding expound_inv_def by blast+
    from expound_iter_spec [OF "1.prems"(1) this(1,2) True this(3)]
    obtain P t s1 where s1: "expound_iter tr s = Inr s1" "iteration_of tr s P t s1"
      by blast
    from "1.prems" s1(2) have "expound_inv tr s1" by (rule expound_inv_step)
    from "1.IH" [OF True s1(1) "1.prems"(1) this] s1(1) True show ?thesis
      by (subst expound_loop.simps) simp
  next
    case False
    moreover from "1.prems"(2) have "initial_state s \<le> length tr"
      unfolding expound_inv_def by blast
    ultimately show ?thesis using "1.prems"(2)
      by (subst expound_loop.simps) simp
  qed
qed

subsection \<open>The result of the decomposition\<close>

lemma expound_result:
  assumes "valid_trans tr"
  shows "\<exists>s. expound_loop tr (expound_start tr) = Inr s \<and> expound_inv tr s \<and>
             initial_state s = length tr \<and> expound tr = Inr (basins s, attractors s)"
proof -
  from expound_loop_inv [OF assms expound_inv_start]
  obtain s where "expound_loop tr (expound_start tr) = Inr s" "expound_inv tr s"
    "initial_state s = length tr" by blast
  then show ?thesis by (auto simp: expound_def)
qed

lemma funpow_valid:
  "valid_trans tr \<Longrightarrow> i < length tr \<Longrightarrow> ((!) tr ^^ m) i < length tr"
  by (induction m) (simp_all add: valid_transD)

lemma reach_within:
  assumes "((!) tr ^^ m) i \<in> C" and v: "valid_trans tr" and i: "i < length tr"
  shows "\<exists>m' \<le> length tr. ((!) tr ^^ m') i \<in> C"
proof -
  let ?f = "\<lambda>j. ((!) tr ^^ j) i"
  define m0 where "m0 = (LEAST m. ?f m \<in> C)"
  have m0: "?f m0 \<in> C" unfolding m0_def using assms(1) by (rule LeastI)
  have least: "\<And>j. ?f j \<in> C \<Longrightarrow> m0 \<le> j" unfolding m0_def by (rule Least_le)
  have "m0 \<le> length tr"
  proof (rule ccontr)
    assume "\<not> m0 \<le> length tr"
    then have big: "length tr < m0" by simp
    have "?f ` {..length tr} \<subseteq> {..<length tr}"
      using funpow_valid [OF v i] by auto
    then have "card (?f ` {..length tr}) \<le> card {..<length tr}"
      by (intro card_mono) simp_all
    then have "card (?f ` {..length tr}) < card {..length tr}" by simp
    then have "\<not> inj_on ?f {..length tr}" by (rule pigeonhole)
    then obtain a b where ab: "a \<le> length tr" "b \<le> length tr" "a \<noteq> b" "?f a = ?f b"
      by (auto simp: inj_on_def)
    have shift: "?f ((m0 - b') + a') \<in> C"
      if "a' < b'" "b' \<le> length tr" "?f a' = ?f b'" for a' b'
    proof -
      have "?f ((m0 - b') + a') = ((!) tr ^^ (m0 - b')) (?f a')"
        by (simp add: funpow_add)
      also have "\<dots> = ((!) tr ^^ (m0 - b')) (?f b')" using that(3) by simp
      also have "\<dots> = ?f ((m0 - b') + b')" by (simp add: funpow_add)
      also have "(m0 - b') + b' = m0" using that(2) big by simp
      finally show ?thesis using m0 by simp
    qed
    from ab(3) consider "a < b" | "b < a" by (cases a b rule: linorder_cases) auto
    then show False
    proof cases
      case 1
      from shift [OF 1 ab(2) ab(4)] have "m0 \<le> (m0 - b) + a" by (rule least)
      with 1 ab(2) big show False by simp
    next
      case 2
      from shift [OF 2 ab(1) ab(4) [symmetric]] have "m0 \<le> (m0 - a) + b" by (rule least)
      with 2 ab(1) big show False by simp
    qed
  qed
  with m0 show ?thesis by blast
qed

lemma basin_funpow:
  assumes v: "valid_trans tr" and i: "i < length tr"
    and step: "\<forall>j < length tr. bs ! (tr ! j) = bs ! j"
  shows "bs ! (((!) tr ^^ m) i) = bs ! i"
proof (induction m)
  case 0
  show ?case by simp
next
  case (Suc m)
  have "((!) tr ^^ m) i < length tr" using v i by (rule funpow_valid)
  with step Suc show ?case by simp
qed

lemma expound_reach_basins:
  assumes "valid_trans tr"
  shows "\<exists>bs as. expound tr = Inr (bs, as) \<and> length bs = length tr \<and>
           (\<forall>i < length tr.
              0 \<le> bs ! i \<and> nat (bs ! i) < length as \<and>
              (\<exists>m \<le> length tr. ((!) tr ^^ m) i \<in> set (as ! nat (bs ! i))) \<and>
              (\<forall>k < length as. \<forall>m. ((!) tr ^^ m) i \<in> set (as ! k) \<longrightarrow> int k = bs ! i))"
proof -
  from expound_result [OF assms] obtain s where
    inv: "expound_inv tr s" and fin: "initial_state s = length tr"
    and res: "expound tr = Inr (basins s, attractors s)"
    by blast
  let ?n = "length tr"
  from inv have lb: "length (basins s) = ?n"
    and below: "\<forall>j < initial_state s. visited s ! j"
    and bn: "basin_number s = int (length (attractors s))"
    and vis: "\<forall>i < ?n. visited s ! i \<longrightarrow>
        visited s ! (tr ! i) \<and> basins s ! (tr ! i) = basins s ! i \<and>
        0 \<le> basins s ! i \<and> basins s ! i < basin_number s \<and>
        (\<exists>m. ((!) tr ^^ m) i \<in> set (attractors s ! nat (basins s ! i)))"
    and att: "\<forall>k < length (attractors s).
        attractors s ! k \<noteq> [] \<and>
        attractors s ! k = rev (cycle_walk tr (last (attractors s ! k))) \<and>
        (\<forall>x \<in> set (attractors s ! k).
           x < ?n \<and> basins s ! x = int k \<and> tr ! x \<in> set (attractors s ! k))"
    unfolding expound_inv_def by blast+
  have all: "\<And>i. i < ?n \<Longrightarrow> visited s ! i" using below fin by simp
  have step: "\<forall>j < ?n. basins s ! (tr ! j) = basins s ! j" using vis all by simp
  have "0 \<le> basins s ! i \<and> nat (basins s ! i) < length (attractors s) \<and>
        (\<exists>m \<le> ?n. ((!) tr ^^ m) i \<in> set (attractors s ! nat (basins s ! i))) \<and>
        (\<forall>k < length (attractors s). \<forall>m.
            ((!) tr ^^ m) i \<in> set (attractors s ! k) \<longrightarrow> int k = basins s ! i)"
    if i: "i < ?n" for i
  proof -
    from vis i all [OF i] have rng: "0 \<le> basins s ! i" "basins s ! i < basin_number s"
      and r: "\<exists>m. ((!) tr ^^ m) i \<in> set (attractors s ! nat (basins s ! i))"
      by simp_all
    from r obtain m where "((!) tr ^^ m) i \<in> set (attractors s ! nat (basins s ! i))" ..
    from reach_within [OF this assms i]
    have b: "\<exists>m \<le> ?n. ((!) tr ^^ m) i \<in> set (attractors s ! nat (basins s ! i))" .
    have u: "int k = basins s ! i"
      if k: "k < length (attractors s)" and m: "((!) tr ^^ m) i \<in> set (attractors s ! k)" for k m
    proof -
      from att k m have "basins s ! (((!) tr ^^ m) i) = int k" by simp
      with basin_funpow [OF assms i step, of m] show ?thesis by simp
    qed
    from rng bn b u show ?thesis by auto
  qed
  with res lb show ?thesis by blast
qed

subsection \<open>The recorded attractors are cycles\<close>

lemma chain_prefix_to: "chain tr P \<Longrightarrow> chain tr (prefix_to t P)"
proof (induction tr P rule: chain.induct)
  case (3 tr y z r)
  then show ?case by (cases "z = t") auto
qed simp_all

lemma distinct_prefix_to: "distinct P \<Longrightarrow> distinct (prefix_to t P)"
proof (induction P)
  case Nil
  then show ?case by simp
next
  case (Cons a P)
  moreover have "set (prefix_to t P) \<subseteq> set P" by (rule prefix_to_subset)
  ultimately show ?case by auto
qed

lemma chain_from_last:
  "chain tr c \<Longrightarrow> y \<in> set c \<Longrightarrow> \<exists>m. ((!) tr ^^ m) (last c) = y"
proof (induction tr c arbitrary: y rule: chain.induct)
  case (1 tr)
  then show ?case by simp
next
  case (2 tr x)
  then have "((!) tr ^^ 0) (last [x]) = y" by simp
  then show ?case by blast
next
  case (3 tr x z r)
  from "3.prems"(1) have ch: "chain tr (z # r)" and zx: "tr ! z = x" by simp_all
  show ?case
  proof (cases "y \<in> set (z # r)")
    case True
    from "3.IH" [OF ch True] show ?thesis by simp
  next
    case False
    with "3.prems"(2) have yx: "y = x" by simp
    have "z \<in> set (z # r)" by simp
    from "3.IH" [OF ch this] obtain m where "((!) tr ^^ m) (last (z # r)) = z" by auto
    then have "((!) tr ^^ Suc m) (last (x # z # r)) = y" using zx yx by simp
    then show ?thesis by blast
  qed
qed

lemma cycle_of_chain:
  assumes ch: "chain tr c" and ne: "c \<noteq> []" and d: "distinct c"
    and ret: "tr ! hd c = last c"
    and cl: "\<forall>x \<in> set c. x < length tr \<and> tr ! x \<in> set c"
  shows "is_cycle tr c"
proof -
  have "\<exists>m > 0. ((!) tr ^^ m) x = y" if x: "x \<in> set c" and y: "y \<in> set c" for x y
  proof -
    from chain_reach [OF ch x] obtain m1 where m1: "((!) tr ^^ m1) x = hd c" by blast
    from chain_from_last [OF ch y] obtain m2 where m2: "((!) tr ^^ m2) (last c) = y" by blast
    have "((!) tr ^^ (m2 + Suc m1)) x = ((!) tr ^^ m2) (tr ! (((!) tr ^^ m1) x))"
      by (simp only: funpow_add o_apply funpow.simps)
    with m1 m2 ret have "((!) tr ^^ (m2 + Suc m1)) x = y" by simp
    moreover have "0 < m2 + Suc m1" by simp
    ultimately show ?thesis by blast
  qed
  with ne d cl show ?thesis unfolding is_cycle_def by blast
qed

lemma cycles_inv_start: "cycles_inv tr (expound_start tr)"
  by (simp add: cycles_inv_def expound_start_def)

lemma cycles_inv_step:
  assumes inv: "expound_inv tr s" and cyc: "cycles_inv tr s"
    and it: "iteration_of tr s P t s'"
  shows "cycles_inv tr s'"
proof -
  from it have P: "P \<noteq> []" "distinct P" "chain tr P" "tr ! hd P = t" "t < length tr"
    "t \<in> set P \<or> visited s ! t"
    and at: "attractors s' =
       (if basins s ! t = - 1 then attractors s @ [prefix_to t P] else attractors s)"
    unfolding iteration_of_def by blast+
  show ?thesis
  proof (cases "basins s ! t = - 1")
    case False
    with at cyc show ?thesis by (simp add: cycles_inv_def)
  next
    case True
    from inv P(5) True have "\<not> visited s ! t" unfolding expound_inv_def by force
    with P(6) have tP: "t \<in> set P" by simp
    have new: "chain tr (prefix_to t P) \<and> distinct (prefix_to t P) \<and>
               tr ! hd (prefix_to t P) = last (prefix_to t P)"
      using P(1-4) tP
      by (simp add: chain_prefix_to distinct_prefix_to prefix_to_hd prefix_to_last)
    have "chain tr (attractors s' ! k) \<and> distinct (attractors s' ! k) \<and>
          tr ! hd (attractors s' ! k) = last (attractors s' ! k)"
      if k: "k < length (attractors s')" for k
    proof (cases "k < length (attractors s)")
      case True
      with cyc show ?thesis using at by (simp add: cycles_inv_def nth_append)
    next
      case False
      with k True at have "attractors s' ! k = prefix_to t P" by (simp add: nth_append)
      with new show ?thesis by simp
    qed
    then show ?thesis unfolding cycles_inv_def by blast
  qed
qed

lemma expound_loop_cycles:
  "valid_trans tr \<Longrightarrow> expound_inv tr s \<Longrightarrow> cycles_inv tr s \<Longrightarrow>
   expound_loop tr s = Inr s' \<Longrightarrow> cycles_inv tr s'"
proof (induction tr s rule: expound_loop.induct)
  case (1 tr s)
  show ?case
  proof (cases "initial_state s < length tr")
    case True
    from "1.prems"(2) True have "length (visited s) = length tr" "length (basins s) = length tr"
      "\<not> visited s ! initial_state s"
      unfolding expound_inv_def by blast+
    from expound_iter_spec [OF "1.prems"(1) this(1,2) True this(3)]
    obtain P t s1 where s1: "expound_iter tr s = Inr s1" "iteration_of tr s P t s1"
      by blast
    from "1.prems"(1,2) s1(2) have i1: "expound_inv tr s1" by (rule expound_inv_step)
    from "1.prems"(2,3) s1(2) have c1: "cycles_inv tr s1" by (rule cycles_inv_step)
    from "1.prems"(4) True s1(1) have "expound_loop tr s1 = Inr s'"
      by (subst (asm) expound_loop.simps) simp
    from "1.IH" [OF True s1(1) "1.prems"(1) i1 c1 this] show ?thesis .
  next
    case False
    with "1.prems"(4) have "s' = s" by (subst (asm) expound_loop.simps) simp
    with "1.prems"(3) show ?thesis by simp
  qed
qed

lemma expound_cycles:
  assumes "valid_trans tr" and "expound tr = Inr (bs, as)"
  shows "\<forall>k < length as. is_cycle tr (as ! k)"
proof -
  from expound_result [OF assms(1)] obtain s where
    loop: "expound_loop tr (expound_start tr) = Inr s" and inv: "expound_inv tr s"
    and res: "expound tr = Inr (basins s, attractors s)"
    by blast
  from assms(2) res have as: "as = attractors s" by simp
  from expound_loop_cycles [OF assms(1) expound_inv_start cycles_inv_start loop]
  have cyc: "cycles_inv tr s" .
  show ?thesis
  proof (intro allI impI)
    fix k assume k: "k < length as"
    with inv as have ne: "as ! k \<noteq> []"
      and cl: "\<forall>x \<in> set (as ! k). x < length tr \<and> tr ! x \<in> set (as ! k)"
      unfolding expound_inv_def by blast+
    from cyc k as have "chain tr (as ! k)" "distinct (as ! k)" "tr ! hd (as ! k) = last (as ! k)"
      unfolding cycles_inv_def by blast+
    from cycle_of_chain [OF this(1) ne this(2,3) cl] show "is_cycle tr (as ! k)" .
  qed
qed

text \<open>
  Claim C1. On the transitions array of a landscape the decomposition returns; every
  recorded attractor is a cycle of the transitions; and for every state \<open>i\<close> below
  \<open>volume\<close>: \<open>basins[i]\<close> is the position of a recorded attractor; iterating the
  transitions from \<open>i\<close> reaches a state of that cycle within at most \<open>volume\<close> steps;
  and no other recorded attractor is ever reached from \<open>i\<close>. So the basin id of a state
  identifies the one cycle reachable from it.
\<close>

theorem expound_reachability:
  assumes "valid_trans tr"
  shows "\<exists>bs as. expound tr = Inr (bs, as) \<and> length bs = length tr \<and>
           (\<forall>k < length as. is_cycle tr (as ! k)) \<and>
           (\<forall>i < length tr.
              0 \<le> bs ! i \<and> nat (bs ! i) < length as \<and>
              (\<exists>m \<le> length tr. ((!) tr ^^ m) i \<in> set (as ! nat (bs ! i))) \<and>
              (\<forall>k < length as. \<forall>m. ((!) tr ^^ m) i \<in> set (as ! k) \<longrightarrow> int k = bs ! i))"
proof -
  from expound_reach_basins [OF assms] obtain bs as where
    e: "expound tr = Inr (bs, as)" "length bs = length tr"
    and a: "\<forall>i < length tr.
              0 \<le> bs ! i \<and> nat (bs ! i) < length as \<and>
              (\<exists>m \<le> length tr. ((!) tr ^^ m) i \<in> set (as ! nat (bs ! i))) \<and>
              (\<forall>k < length as. \<forall>m. ((!) tr ^^ m) i \<in> set (as ! k) \<longrightarrow> int k = bs ! i)"
    by blast
  from expound_cycles [OF assms e(1)] e a show ?thesis by blast
qed

theorem expound_reachability_witness:
  "valid_trans [1, 2, 0, 4, 3] \<and>
   expound [1, 2, 0, 4, 3] = Inr ([0, 0, 0, 1, 1], [[2, 1, 0], [4, 3]]) \<and>
   is_cycle [1, 2, 0, 4, 3] [2, 1, 0] \<and> is_cycle [1, 2, 0, 4, 3] [4, 3] \<and>
   (\<exists>m \<le> length [1, 2, 0, 4, 3::nat]. ((!) [1, 2, 0, 4, 3] ^^ m) 3 \<in> set [4, 3::nat])"
proof -
  have v: "valid_trans [1, 2, 0, 4, 3]" by (simp add: valid_trans_def)
  have ev: "expound [1, 2, 0, 4, 3] = Inr ([0, 0, 0, 1, 1], [[2, 1, 0], [4, 3]])"
    by code_simp
  from expound_reachability [OF v] ev
  have c: "\<forall>k < length [[2, 1, 0], [4, 3::nat]].
             is_cycle [1, 2, 0, 4, 3] ([[2, 1, 0], [4, 3]] ! k)"
    and a: "\<forall>i < length [1, 2, 0, 4, 3::nat].
              \<exists>m \<le> length [1, 2, 0, 4, 3::nat].
                ((!) [1, 2, 0, 4, 3::nat] ^^ m) i
                  \<in> set ([[2, 1, 0], [4, 3::nat]] ! nat ([0, 0, 0, 1, 1::int] ! i))"
    by auto
  from c [rule_format, of 0] have c0: "is_cycle [1, 2, 0, 4, 3] [2, 1, 0]" by simp
  from c [rule_format, of 1] have c1: "is_cycle [1, 2, 0, 4, 3] [4, 3]" by simp
  from a [rule_format, of 3]
  have r: "\<exists>m \<le> length [1, 2, 0, 4, 3::nat]. ((!) [1, 2, 0, 4, 3] ^^ m) 3 \<in> set [4, 3::nat]"
    by simp
  from v ev c0 c1 r show ?thesis by blast
qed

text \<open>
  Claim C2. After the decomposition, \<open>basins\<close> has one entry for each of the
  \<open>volume\<close> states; the entries are exactly the ids \<open>0, ..., k - 1\<close> where \<open>k\<close> is the
  number of recorded attractors, so the number of distinct ids is \<open>k\<close>; and the basin
  sizes (the number of entries holding each id) add up to \<open>volume\<close>.
\<close>

theorem expound_partition:
  assumes "valid_trans tr"
  shows "\<exists>bs as. expound tr = Inr (bs, as) \<and> length bs = length tr \<and>
           (\<forall>i < length tr. 0 \<le> bs ! i \<and> bs ! i < int (length as)) \<and>
           set bs = int ` {..<length as} \<and>
           card (set bs) = length as \<and>
           (\<Sum>k < length as. count_list bs (int k)) = length tr"
proof -
  from expound_result [OF assms] obtain s where
    inv: "expound_inv tr s" and fin: "initial_state s = length tr"
    and res: "expound tr = Inr (basins s, attractors s)"
    by blast
  let ?n = "length tr"
  let ?bs = "basins s"
  let ?K = "length (attractors s)"
  from inv have lb: "length ?bs = ?n"
    and below: "\<forall>j < initial_state s. visited s ! j"
    and bn: "basin_number s = int ?K"
    and vis: "\<forall>i < ?n. visited s ! i \<longrightarrow>
        visited s ! (tr ! i) \<and> basins s ! (tr ! i) = basins s ! i \<and>
        0 \<le> basins s ! i \<and> basins s ! i < basin_number s \<and>
        (\<exists>m. ((!) tr ^^ m) i \<in> set (attractors s ! nat (basins s ! i)))"
    and att: "\<forall>k < ?K.
        attractors s ! k \<noteq> [] \<and>
        attractors s ! k = rev (cycle_walk tr (last (attractors s ! k))) \<and>
        (\<forall>x \<in> set (attractors s ! k).
           x < ?n \<and> basins s ! x = int k \<and> tr ! x \<in> set (attractors s ! k))"
    unfolding expound_inv_def by blast+
  have rng: "\<forall>i < ?n. 0 \<le> ?bs ! i \<and> ?bs ! i < int ?K"
    using vis below fin bn by simp
  have sub: "set ?bs \<subseteq> int ` {..<?K}"
  proof
    fix b assume "b \<in> set ?bs"
    then obtain i where "i < ?n" "b = ?bs ! i" using lb by (auto simp: in_set_conv_nth)
    with rng have "0 \<le> b" "b < int ?K" by simp_all
    then have "nat b < ?K" "b = int (nat b)" by simp_all
    then show "b \<in> int ` {..<?K}" by blast
  qed
  have sup: "int ` {..<?K} \<subseteq> set ?bs"
  proof
    fix b assume "b \<in> int ` {..<?K}"
    then obtain k where k: "k < ?K" "b = int k" by auto
    with att have "attractors s ! k \<noteq> []" by simp
    then obtain x where x: "x \<in> set (attractors s ! k)" by (cases "attractors s ! k") auto
    with att k have "x < ?n" "?bs ! x = b" by simp_all
    with lb show "b \<in> set ?bs" by (metis nth_mem)
  qed
  from sub sup have eq: "set ?bs = int ` {..<?K}" by blast
  have card: "card (set ?bs) = ?K"
    unfolding eq by (simp add: card_image)
  have "(\<Sum>k < ?K. count_list ?bs (int k)) = sum (count_list ?bs) (int ` {..<?K})"
    by (simp add: sum.reindex)
  also have "\<dots> = length ?bs"
    using sub by (intro sum_count_set) simp_all
  finally have total: "(\<Sum>k < ?K. count_list ?bs (int k)) = ?n" using lb by simp
  from res lb rng eq card total show ?thesis by blast
qed

theorem expound_partition_witness:
  "valid_trans [1, 2, 0, 1, 2, 6, 5] \<and>
   (\<exists>bs as. expound [1, 2, 0, 1, 2, 6, 5] = Inr (bs, as) \<and>
      length bs = length [1, 2, 0, 1, 2, 6, 5::nat] \<and>
      set bs = int ` {..<length as} \<and> card (set bs) = length as \<and>
      (\<Sum>k < length as. count_list bs (int k)) = length [1, 2, 0, 1, 2, 6, 5::nat])"
proof -
  have v: "valid_trans [1, 2, 0, 1, 2, 6, 5]" by (simp add: valid_trans_def)
  from expound_partition [OF v] v show ?thesis by blast
qed

text \<open>
  Claim C4. On the transitions \<open>[1, 3, 3, 3]\<close> the decomposition puts all four states
  in basin \<open>0\<close> and records the single attractor \<open>[3]\<close>.
\<close>

theorem expound_scenario_1: "expound [1, 3, 3, 3] = Inr ([0, 0, 0, 0], [[3]])"
  by code_simp

subsection \<open>The cycle recorded for a new basin\<close>

lemma expound_after_inv:
  "valid_trans tr \<Longrightarrow> expound_after tr k = Inr s \<Longrightarrow> expound_inv tr s"
proof (induction k arbitrary: s)
  case 0
  then have "s = expound_start tr" by simp
  then show ?case by (simp add: expound_inv_start)
next
  case (Suc k)
  from Suc.prems(2) obtain s0 where s0: "expound_after tr k = Inr s0"
    by (auto split: sum.splits)
  with Suc have inv0: "expound_inv tr s0" by blast
  show ?case
  proof (cases "initial_state s0 < length tr")
    case True
    with Suc.prems(2) s0 have it: "expound_iter tr s0 = Inr s" by simp
    from inv0 True have "length (visited s0) = length tr" "length (basins s0) = length tr"
      "\<not> visited s0 ! initial_state s0"
      unfolding expound_inv_def by blast+
    from expound_iter_spec [OF Suc.prems(1) this(1,2) True this(3)] it
    obtain P t where "iteration_of tr s0 P t s" by auto
    with Suc.prems(1) inv0 show ?thesis by (rule expound_inv_step)
  next
    case False
    with Suc.prems(2) s0 inv0 show ?thesis by simp
  qed
qed

text \<open>
  Claim C3, as the code has it. Whenever, during the decomposition, the path of an
  iteration stops at a terminus that has no basin yet, the iteration records one new
  attractor: the cycle through the terminus (the states met by walking forward from the
  terminus until it comes back, all of them on the path), listed in the order in which
  the stack is popped, which is the walk read backwards: it starts with the state whose
  successor is the terminus and ends with the terminus.
\<close>

theorem expound_new_cycle:
  assumes v: "valid_trans tr"
    and reach: "expound_after tr k = Inr s"
    and guard: "initial_state s < length tr"
    and path: "follow tr ((visited s)[initial_state s := True]) [] (initial_state s)
                 (tr ! initial_state s) = Inr (vs, state_stack, state, terminus)"
    and fresh: "basins s ! terminus = - 1"
  shows "\<exists>s'. expound_iter tr s = Inr s' \<and>
           attractors s' = attractors s @ [rev (cycle_walk tr terminus)] \<and>
           set (cycle_walk tr terminus) \<subseteq> set (state # state_stack) \<and>
           tr ! last (cycle_walk tr terminus) = terminus"
proof -
  from v reach have inv: "expound_inv tr s" by (rule expound_after_inv)
  from inv guard have "length (visited s) = length tr" "length (basins s) = length tr"
    "\<not> visited s ! initial_state s"
    unfolding expound_inv_def by blast+
  from expound_iter_spec [OF v this(1,2) guard this(3)]
  obtain P t s' where it: "expound_iter tr s = Inr s'" and rel: "iteration_of tr s P t s'"
    by blast
  from rel have P: "P \<noteq> []" "distinct P" "chain tr P" "tr ! hd P = t"
    "\<forall>x \<in> set P. x < length tr \<and> \<not> visited s ! x" "t \<in> set P \<or> visited s ! t"
    "t < length tr"
    and at: "attractors s' = (if basins s ! t = - 1 then attractors s @ [prefix_to t P] else attractors s)"
    and f: "follow tr ((visited s)[initial_state s := True]) [] (initial_state s)
       (tr ! initial_state s) = Inr (visited s', tl P, hd P, t)"
    unfolding iteration_of_def by blast+
  from f path have eq: "t = terminus" "tl P = state_stack" "hd P = state" by simp_all
  with P(1) have Peq: "P = state # state_stack" by (cases P) simp_all
  from inv P(7) fresh have "\<not> visited s ! t"
    unfolding expound_inv_def eq(1) by force
  with P(6) have tP: "t \<in> set P" by simp
  have "\<forall>x \<in> set P. x < length tr" using P(5) by simp
  with P tP have cw: "rev (prefix_to t P) = cycle_walk tr t"
    by (intro cycle_walk_prefix) simp_all
  then have pre: "prefix_to t P = rev (cycle_walk tr t)" by (metis rev_rev_ident)
  have fr: "basins s ! t = - 1" using fresh by (simp add: eq(1))
  have a1: "attractors s' = attractors s @ [rev (cycle_walk tr t)]"
    using at fr by (simp add: pre)
  have a2: "set (cycle_walk tr t) \<subseteq> set P"
    using prefix_to_subset [of t P] by (simp add: pre)
  have "last (cycle_walk tr t) = hd P"
    using prefix_to_hd [OF P(1), of t] prefix_to_nonempty [OF P(1), of t]
    by (simp add: pre hd_rev)
  with P(4) have a3: "tr ! last (cycle_walk tr t) = t" by simp
  from it a1 a2 a3 have "\<exists>s'. expound_iter tr s = Inr s' \<and>
           attractors s' = attractors s @ [rev (cycle_walk tr t)] \<and>
           set (cycle_walk tr t) \<subseteq> set P \<and>
           tr ! last (cycle_walk tr t) = t"
    by blast
  then show ?thesis unfolding eq(1) Peq .
qed

text \<open>
  Claim C3 as stated fails on the three-cycle \<open>0 \<rightarrow> 1 \<rightarrow> 2 \<rightarrow> 0\<close>: the first path stops at
  the terminus \<open>0\<close>, which has no basin; the walk forward from \<open>0\<close> is \<open>[0, 1, 2]\<close>, and
  the attractor recorded is \<open>[2, 1, 0]\<close>.
\<close>

theorem expound_new_cycle_counterexample:
  "follow [1, 2, 0] ((visited (expound_start [1, 2, 0]))[0 := True]) [] 0 ([1, 2, 0] ! 0)
     = Inr ([True, True, True], [1, 0], 2, 0) \<and>
   basins (expound_start [1, 2, 0]) ! 0 = - 1 \<and>
   map_sum id attractors (expound_iter [1, 2, 0] (expound_start [1, 2, 0])) = Inr [[2, 1, 0]] \<and>
   cycle_walk [1, 2, 0] 0 = [0, 1, 2] \<and>
   [2, 1, 0] \<noteq> cycle_walk [1, 2, 0] 0"
  by code_simp

theorem expound_new_cycle_witness:
  "valid_trans [1, 2, 0] \<and> expound_after [1, 2, 0] 0 = Inr (expound_start [1, 2, 0]) \<and>
   initial_state (expound_start [1, 2, 0]) < length [1, 2, 0::nat] \<and>
   basins (expound_start [1, 2, 0]) ! 0 = - 1 \<and>
   (\<exists>s'. expound_iter [1, 2, 0] (expound_start [1, 2, 0]) = Inr s' \<and>
      attractors s' = attractors (expound_start [1, 2, 0]) @ [rev (cycle_walk [1, 2, 0] 0)] \<and>
      rev (cycle_walk [1, 2, 0] 0) = [2, 1, 0])"
proof -
  have v: "valid_trans [1, 2, 0]" by (simp add: valid_trans_def)
  have r: "expound_after [1, 2, 0] 0 = Inr (expound_start [1, 2, 0])" by simp
  have g: "initial_state (expound_start [1, 2, 0]) < length [1, 2, 0::nat]"
    by (simp add: expound_start_def)
  have p: "follow [1, 2, 0] ((visited (expound_start [1, 2, 0]))
             [initial_state (expound_start [1, 2, 0]) := True]) []
             (initial_state (expound_start [1, 2, 0]))
             ([1, 2, 0] ! initial_state (expound_start [1, 2, 0]))
           = Inr ([True, True, True], [1, 0], 2, 0)"
    by code_simp
  have f: "basins (expound_start [1, 2, 0]) ! 0 = - 1" by (simp add: expound_start_def)
  have c: "rev (cycle_walk [1, 2, 0] 0) = [2, 1, 0]" by code_simp
  from expound_new_cycle [OF v r g p f] v r g f c show ?thesis by blast
qed

section \<open>Properties of landscapes and trajectories\<close>

subsection \<open>The example network\<close>

lemma example_setup: "Landscape_setup example_net example_space = [1, 3, 3, 3]"
  by (simp add: Landscape_setup_def example_net_def example_space_def example_update_def)

lemma example_landscape_init: "Landscape_init example_net None = Inr example_landscape"
proof -
  have "net_is_network example_net" "net_is_fixed_sized example_net"
    "net_state_space example_net None = example_space"
    by (simp_all add: example_net_def)
  then show ?thesis
    by (simp add: Landscape_init_def Let_def example_setup example_landscape_def)
qed

lemma example_valid: "valid_trans (ls_transitions example_landscape)"
  by (simp add: example_landscape_def valid_trans_def)

subsection \<open>Until the first repetition\<close>

lemma orbit_0: "orbit tr s 0 = []"
  by (simp add: orbit_def)

lemma orbit_Suc: "orbit tr s (Suc k) = int s # orbit tr (tr ! s) k"
proof -
  have "[0..<Suc k] = 0 # map Suc [0..<k]"
    by (simp add: upt_conv_Cons map_Suc_upt del: upt_Suc)
  then show ?thesis
    unfolding orbit_def by (simp add: funpow_swap1 comp_def del: upt_Suc)
qed

lemma orbit_length: "length (orbit tr s k) = k"
  by (simp add: orbit_def)

lemma np_get_nat: "s < length tr \<Longrightarrow> np_get tr (int s) = Inr (tr ! s)"
  by (simp add: np_get_def)

lemma until_repeat_spec:
  "valid_trans tr \<Longrightarrow> 0 \<le> state \<Longrightarrow> state < int (length tr) \<Longrightarrow>
   \<exists>k. until_repeat tr path state = Inr (path @ orbit tr (nat state) k) \<and>
       int (((!) tr ^^ k) (nat state)) \<in> set (path @ orbit tr (nat state) k) \<and>
       distinct (orbit tr (nat state) k) \<and>
       set (orbit tr (nat state) k) \<inter> set path = {}"
proof (induction tr path state rule: until_repeat.induct)
  case (1 tr path state)
  define s where "s = nat state"
  have st: "state = int s" and sl: "s < length tr" using "1.prems" by (simp_all add: s_def)
  show ?case
  proof (cases "state \<in> set path")
    case True
    then have "until_repeat tr path state = Inr (path @ orbit tr s 0)"
      by (subst until_repeat.simps) (simp add: orbit_0)
    moreover have "int (((!) tr ^^ 0) s) \<in> set (path @ orbit tr s 0)"
      using True st by simp
    ultimately show ?thesis unfolding s_def [symmetric] by (metis orbit_0 distinct.simps(1) empty_set inf_bot_left)
  next
    case False
    have g: "np_get tr state = Inr (tr ! s)" using sl by (simp add: st np_get_nat)
    have nx: "tr ! s < length tr" using "1.prems"(1) sl by (rule valid_transD)
    from "1.IH" [OF False g "1.prems"(1)] nx
    obtain k where k: "until_repeat tr (path @ [state]) (int (tr ! s))
          = Inr ((path @ [state]) @ orbit tr (tr ! s) k)"
      "int (((!) tr ^^ k) (tr ! s)) \<in> set ((path @ [state]) @ orbit tr (tr ! s) k)"
      "distinct (orbit tr (tr ! s) k)"
      "set (orbit tr (tr ! s) k) \<inter> set (path @ [state]) = {}"
      by auto
    have a: "until_repeat tr path state = Inr (path @ orbit tr s (Suc k))"
      using False g k(1) by (subst until_repeat.simps) (simp add: orbit_Suc st)
    have b: "int (((!) tr ^^ Suc k) s) \<in> set (path @ orbit tr s (Suc k))"
      using k(2) by (simp add: orbit_Suc st funpow_swap1)
    have c: "distinct (orbit tr s (Suc k))"
      using k(3,4) by (auto simp: orbit_Suc st)
    have d: "set (orbit tr s (Suc k)) \<inter> set path = {}"
      using k(4) False by (auto simp: orbit_Suc st)
    from a b c d show ?thesis unfolding s_def [symmetric] by blast
  qed
qed

lemma orbit_range: "valid_trans tr \<Longrightarrow> s < length tr \<Longrightarrow> set (orbit tr s k) \<subseteq> int ` {..<length tr}"
  by (auto simp: orbit_def funpow_valid)

lemma orbit_bound:
  assumes "valid_trans tr" "s < length tr" "distinct (orbit tr s k)"
  shows "k \<le> length tr"
proof -
  have "card (set (orbit tr s k)) \<le> card (int ` {..<length tr})"
    using orbit_range [OF assms(1,2)] by (intro card_mono) simp_all
  also have "\<dots> = length tr" by (simp add: card_image)
  finally show ?thesis using assms(3) by (simp add: distinct_card orbit_length)
qed

lemma trajectory_path_until_repeat:
  assumes v: "valid_trans tr" and i: "i < length tr"
  shows "\<exists>m. trajectory_path tr (int i) None = Inr (orbit tr i m) \<and> 0 < m \<and> m \<le> length tr \<and>
             distinct (orbit tr i m) \<and> int (((!) tr ^^ m) i) \<in> set (orbit tr i m)"
proof -
  have nx: "tr ! i < length tr" using v i by (rule valid_transD)
  from until_repeat_spec [OF v, of "int (tr ! i)" "[int i]"] nx
  obtain k where k: "until_repeat tr [int i] (int (tr ! i)) = Inr ([int i] @ orbit tr (tr ! i) k)"
      "int (((!) tr ^^ k) (tr ! i)) \<in> set ([int i] @ orbit tr (tr ! i) k)"
      "distinct (orbit tr (tr ! i) k)"
      "set (orbit tr (tr ! i) k) \<inter> set [int i] = {}"
    by auto
  have a: "trajectory_path tr (int i) None = Inr (orbit tr i (Suc k))"
    using k(1) i by (simp add: trajectory_path_def np_get_nat orbit_Suc)
  have b: "distinct (orbit tr i (Suc k))" using k(3,4) by (auto simp: orbit_Suc)
  have c: "int (((!) tr ^^ Suc k) i) \<in> set (orbit tr i (Suc k))"
    using k(2) by (simp add: orbit_Suc funpow_swap1)
  from orbit_bound [OF v i b] have d: "Suc k \<le> length tr" .
  from a b c d show ?thesis by blast
qed

text \<open>
  Claim C5. Started without \<open>timesteps\<close> from a valid state \<open>i\<close> (given as an index,
  or as a vector that \<open>encode\<close> maps to \<open>i\<close>), \<open>Landscape.trajectory\<close> returns; its
  path is \<open>i, trans[i], trans[trans[i]], ...\<close>, of some length \<open>m\<close> between 1 and
  \<open>volume\<close>; the states of the path are distinct and the next state, the \<open>m\<close>-th iterate,
  is already on it, so the path stops at the first repetition and does not hold the
  repeated state twice. On the transitions \<open>[1, 3, 3, 3]\<close> from index 0 the result is
  \<open>[0, 1, 3]\<close>.
\<close>

theorem trajectory_until_repeat:
  assumes "valid_trans (ls_transitions L)"
    and "i < length (ls_transitions L)"
    and "resolve_init (ls_space L) init encode = Inr (int i, encode')"
  shows "(\<exists>m. trajectory_path (ls_transitions L) (int i) None = Inr (orbit (ls_transitions L) i m) \<and>
              0 < m \<and> m \<le> length (ls_transitions L) \<and>
              distinct (orbit (ls_transitions L) i m) \<and>
              int (((!) (ls_transitions L) ^^ m) i) \<in> set (orbit (ls_transitions L) i m) \<and>
              Landscape_trajectory L init None encode =
                present (ls_space L) encode' (orbit (ls_transitions L) i m)) \<and>
         (ls_transitions L = [1, 3, 3, 3] \<longrightarrow>
            Landscape_trajectory L (PyInt 0) None None = Inr (Indices [0, 1, 3]))"
proof -
  from trajectory_path_until_repeat [OF assms(1,2)]
  obtain m where m: "trajectory_path (ls_transitions L) (int i) None = Inr (orbit (ls_transitions L) i m)"
    "0 < m" "m \<le> length (ls_transitions L)" "distinct (orbit (ls_transitions L) i m)"
    "int (((!) (ls_transitions L) ^^ m) i) \<in> set (orbit (ls_transitions L) i m)"
    by blast
  have "Landscape_trajectory L init None encode =
          present (ls_space L) encode' (orbit (ls_transitions L) i m)"
    using assms(3) m(1) by (simp add: Landscape_trajectory_def)
  with m have A: "\<exists>m. trajectory_path (ls_transitions L) (int i) None = Inr (orbit (ls_transitions L) i m) \<and>
              0 < m \<and> m \<le> length (ls_transitions L) \<and>
              distinct (orbit (ls_transitions L) i m) \<and>
              int (((!) (ls_transitions L) ^^ m) i) \<in> set (orbit (ls_transitions L) i m) \<and>
              Landscape_trajectory L init None encode =
                present (ls_space L) encode' (orbit (ls_transitions L) i m)"
    by blast
  have "trajectory_path [1, 3, 3, 3] 0 None = Inr [0, 1, 3]"
    by (simp add: trajectory_path_def np_get_def until_repeat.simps)
  then have B: "ls_transitions L = [1, 3, 3, 3] \<longrightarrow>
            Landscape_trajectory L (PyInt 0) None None = Inr (Indices [0, 1, 3])"
    by (simp add: Landscape_trajectory_def resolve_init_def present_def)
  from A B show ?thesis ..
qed

theorem trajectory_until_repeat_witness:
  "valid_trans (ls_transitions example_landscape) \<and>
   (0::nat) < length (ls_transitions example_landscape) \<and>
   resolve_init (ls_space example_landscape) (PyInt 0) None = Inr (int 0, True) \<and>
   ls_transitions example_landscape = [1, 3, 3, 3] \<and>
   Landscape_trajectory example_landscape (PyInt 0) None None = Inr (Indices [0, 1, 3])"
proof -
  have i: "(0::nat) < length (ls_transitions example_landscape)"
    by (simp add: example_landscape_def)
  have r: "resolve_init (ls_space example_landscape) (PyInt 0) None = Inr (int 0, True)"
    by (simp add: resolve_init_def)
  have t: "ls_transitions example_landscape = [1, 3, 3, 3]"
    by (simp add: example_landscape_def)
  from trajectory_until_repeat [OF example_valid i r] t
  have "Landscape_trajectory example_landscape (PyInt 0) None None = Inr (Indices [0, 1, 3])"
    by blast
  with example_valid i r t show ?thesis by blast
qed

subsection \<open>A fixed number of steps\<close>

lemma fixed_path_ok:
  "valid_trans tr \<Longrightarrow> - int (length tr) \<le> prev \<Longrightarrow> prev < int (length tr) \<Longrightarrow>
   \<exists>rest. fixed_path tr k prev = Inr rest \<and> length rest = k \<and>
          (\<forall>x \<in> set rest. 0 \<le> x \<and> x < int (length tr))"
proof (induction k arbitrary: prev)
  case 0
  then show ?case by simp
next
  case (Suc k)
  define j where "j = (if 0 \<le> prev then nat prev else nat (int (length tr) + prev))"
  have jl: "j < length tr" using Suc.prems(2,3) by (auto simp: j_def)
  have g: "np_get tr prev = Inr (tr ! j)"
    using Suc.prems(2,3) by (auto simp: np_get_def Let_def j_def)
  have nx: "tr ! j < length tr" using Suc.prems(1) jl by (rule valid_transD)
  from Suc.IH [OF Suc.prems(1), of "int (tr ! j)"] nx
  obtain rest where "fixed_path tr k (int (tr ! j)) = Inr rest" "length rest = k"
    "\<forall>x \<in> set rest. 0 \<le> x \<and> x < int (length tr)"
    by auto
  with g nx show ?case by simp
qed

lemma decode_all_ok:
  "\<forall>x \<in> set path. \<exists>v. dec x = Inr v \<Longrightarrow>
   \<exists>vs. decode_all dec path = Inr vs \<and> length vs = length path \<and>
        (path \<noteq> [] \<longrightarrow> dec (hd path) = Inr (hd vs))"
proof (induction path)
  case Nil
  then show ?case by simp
next
  case (Cons x path)
  then obtain v where v: "dec x = Inr v" by auto
  from Cons obtain vs where "decode_all dec path = Inr vs" "length vs = length path"
    by auto
  with v show ?case by simp
qed

lemma updates_length: "length (updates upd k state) = k"
  by (induction k arbitrary: state) simp_all

text \<open>
  Claim C6. With a step count \<open>t\<close>, on valid input otherwise (for the method: a
  landscape whose transitions are indices of the array, an initial state that resolves
  to an index \<open>i\<close> of the array, and a \<open>decode\<close> that accepts every such index; for the
  free function: a network, and a state its checked update accepts), both
  \<open>Landscape.trajectory\<close> and the free function \<open>trajectory\<close> raise \<open>ValueError\<close> exactly
  when \<open>t < 1\<close>, and otherwise produce \<open>t + 1\<close> entries, the first being the initial
  state (as an index, or as the vector of that index, as \<open>encode\<close> asks).
\<close>

theorem fixed_step_trajectories:
  assumes tr: "valid_trans (ls_transitions L)"
    and init: "resolve_init (ls_space L) init encode = Inr (i, encode')"
    and rng: "0 \<le> i" "i < int (length (ls_transitions L))"
    and dec: "\<forall>k < length (ls_transitions L). \<exists>v. ss_decode (ls_space L) (int k) = Inr v"
    and net: "net_is_network net"
    and upd: "net_update net state = Inr state'"
  shows "(Landscape_trajectory L init (Some t) encode = Inl ValueError \<longleftrightarrow> t < 1) \<and>
         (1 \<le> t \<longrightarrow>
            (\<exists>p. Landscape_trajectory L init (Some t) encode = Inr p \<and>
                 entries p = nat t + 1 \<and> starts_with (ls_space L) p i)) \<and>
         (snd (trajectory net state t enc) = Some ValueError \<longleftrightarrow> t < 1) \<and>
         (1 \<le> t \<longrightarrow>
            snd (trajectory net state t enc) = None \<and>
            length (fst (trajectory net state t enc)) = nat t + 1 \<and>
            hd (fst (trajectory net state t enc)) =
              emit (if net_is_fixed_sized net then net_state_space net None
                    else net_state_space net (Some (length state))) enc state)"
proof -
  let ?tr = "ls_transitions L"
  have A: "Landscape_trajectory L init (Some t) encode = Inl ValueError" if "t < 1"
    using that init by (simp add: Landscape_trajectory_def trajectory_path_def)
  have B: "\<exists>p. Landscape_trajectory L init (Some t) encode = Inr p \<and>
                 entries p = nat t + 1 \<and> starts_with (ls_space L) p i" if t: "1 \<le> t"
  proof -
    from fixed_path_ok [OF tr, of i "nat t"] rng
    obtain rest where rest: "fixed_path ?tr (nat t) i = Inr rest" "length rest = nat t"
      "\<forall>x \<in> set rest. 0 \<le> x \<and> x < int (length ?tr)"
      by auto
    have path: "trajectory_path ?tr i (Some t) = Inr (i # rest)"
      using t rest(1) by (simp add: trajectory_path_def)
    show ?thesis
    proof (cases encode')
      case True
      with init path rest(2) show ?thesis
        by (simp add: Landscape_trajectory_def present_def entries_def starts_with_def)
    next
      case False
      have "\<forall>x \<in> set (i # rest). \<exists>v. ss_decode (ls_space L) x = Inr v"
      proof
        fix x assume "x \<in> set (i # rest)"
        with rest(3) rng have "0 \<le> x" "x < int (length ?tr)" by auto
        then have "nat x < length ?tr" "x = int (nat x)" by simp_all
        with dec show "\<exists>v. ss_decode (ls_space L) x = Inr v" by metis
      qed
      from decode_all_ok [OF this]
      obtain vs where vs: "decode_all (ss_decode (ls_space L)) (i # rest) = Inr vs"
        "length vs = length (i # rest)" "ss_decode (ls_space L) i = Inr (hd vs)"
        by auto
      from vs(2) have "vs \<noteq> []" by auto
      with False init path rest(2) vs show ?thesis
        by (simp add: Landscape_trajectory_def present_def entries_def starts_with_def)
    qed
  qed
  have C: "Landscape_trajectory L init (Some t) encode = Inl ValueError \<longleftrightarrow> t < 1"
  proof
    assume e: "Landscape_trajectory L init (Some t) encode = Inl ValueError"
    show "t < 1"
    proof (rule ccontr)
      assume "\<not> t < 1"
      then have "1 \<le> t" by simp
      from B [OF this] e show False by auto
    qed
  next
    assume "t < 1"
    then show "Landscape_trajectory L init (Some t) encode = Inl ValueError" by (rule A)
  qed
  have D: "snd (trajectory net state t enc) = Some ValueError \<longleftrightarrow> t < 1"
    using net upd by (simp add: trajectory_def Let_def)
  have E: "snd (trajectory net state t enc) = None \<and>
            length (fst (trajectory net state t enc)) = nat t + 1 \<and>
            hd (fst (trajectory net state t enc)) =
              emit (if net_is_fixed_sized net then net_state_space net None
                    else net_state_space net (Some (length state))) enc state" if "1 \<le> t"
    using that net upd by (simp add: trajectory_def Let_def updates_length)
  from B C D E show ?thesis by blast
qed

theorem fixed_step_trajectories_witness:
  "valid_trans (ls_transitions example_landscape) \<and>
   resolve_init (ls_space example_landscape) (PyList [0, 0]) None = Inr (0, False) \<and>
   (0::int) < int (length (ls_transitions example_landscape)) \<and>
   net_is_network example_net \<and>
   net_update example_net [0, 0] = Inr [1, 0] \<and>
   Landscape_trajectory example_landscape (PyList [0, 0]) (Some 0) None = Inl ValueError \<and>
   Landscape_trajectory example_landscape (PyList [0, 0]) (Some 3) None
     = Inr (States [[0, 0], [1, 0], [1, 1], [1, 1]]) \<and>
   trajectory example_net [0, 0] 0 True = ([], Some ValueError) \<and>
   trajectory example_net [0, 0] 3 True = ([Encoded 0, Encoded 1, Encoded 3, Encoded 3], None)"
proof -
  have sp: "ls_space example_landscape = example_space"
    and tr: "ls_transitions example_landscape = [1, 3, 3, 3]"
    by (simp_all add: example_landscape_def)
  have r: "resolve_init (ls_space example_landscape) (PyList [0, 0]) None = Inr (0, False)"
    by (simp add: sp resolve_init_def example_space_def)
  have l: "(0::int) \<le> 0" "(0::int) < int (length (ls_transitions example_landscape))"
    by (simp_all add: tr)
  have d: "\<forall>k < length (ls_transitions example_landscape).
             \<exists>v. ss_decode (ls_space example_landscape) (int k) = Inr v"
    by (simp add: sp tr example_space_def)
  have n: "net_is_network example_net" by (simp add: example_net_def)
  have u: "net_update example_net [0, 0] = Inr [1, 0]"
    by (simp add: example_net_def example_space_def example_update_def)
  note thm0 = fixed_step_trajectories [OF example_valid r l d n u, of 0 True]
  have a: "Landscape_trajectory example_landscape (PyList [0, 0]) (Some 0) None = Inl ValueError"
    using thm0 by simp
  have b: "trajectory example_net [0, 0] 0 True = ([], Some ValueError)"
    by (simp add: trajectory_def n)
  have c: "Landscape_trajectory example_landscape (PyList [0, 0]) (Some 3) None
     = Inr (States [[0, 0], [1, 0], [1, 1], [1, 1]])"
  proof -
    have p: "trajectory_path (ls_transitions example_landscape) 0 (Some 3) = Inr [0, 1, 3, 3]"
      by (simp add: tr trajectory_path_def np_get_def numeral_3_eq_3)
    have q: "present (ls_space example_landscape) False [0, 1, 3, 3]
               = Inr (States [[0, 0], [1, 0], [1, 1], [1, 1]])"
      by (simp add: sp present_def example_space_def)
    show ?thesis unfolding Landscape_trajectory_def r by (simp add: p q)
  qed
  have e: "trajectory example_net [0, 0] 3 True
             = ([Encoded 0, Encoded 1, Encoded 3, Encoded 3], None)"
    by (simp add: trajectory_def n u Let_def emit_def example_net_def example_space_def
        example_update_def numeral_2_eq_2)
  from example_valid r l(2) n u a b c e show ?thesis by blast
qed

subsection \<open>Argument checks\<close>

text \<open>
  Claim C7. For a network, constructing a \<open>Landscape\<close> or running the free function
  \<open>transitions\<close> with a size for a fixed-sized network, or without one for a
  variable-sized network, raises \<open>ValueError\<close>: no landscape and no transition table is
  built and the generator yields nothing. The outcome is the same whatever the network's
  state space and update are, none of which is consulted.
\<close>

theorem size_mismatch_raises:
  assumes "net_is_network net" and "size_mismatch net size'"
  shows "Landscape_init net size' = Inl ValueError \<and>
         transitions net size' encode = ([], Some ValueError) \<and>
         Landscape_init (net\<lparr> net_state_space := sp, net_unsafe_update := upd \<rparr>) size'
           = Inl ValueError \<and>
         transitions (net\<lparr> net_state_space := sp, net_unsafe_update := upd \<rparr>) size' encode
           = ([], Some ValueError)"
  using assms by (auto simp: Landscape_init_def transitions_def size_mismatch_def)

theorem size_mismatch_raises_witness:
  "net_is_network example_net \<and> size_mismatch example_net (Some 2) \<and>
   Landscape_init example_net (Some 2) = Inl ValueError \<and>
   transitions example_net (Some 2) True = ([], Some ValueError)"
proof -
  have n: "net_is_network example_net" by (simp add: example_net_def)
  have m: "size_mismatch example_net (Some 2)"
    by (simp add: size_mismatch_def example_net_def)
  from size_mismatch_raises [OF n m, of True] n m show ?thesis by blast
qed

text \<open>
  Claim C9. \<open>Landscape.trajectory\<close> raises \<open>ValueError\<close> on an empty initial state,
  whatever the transitions array holds, so before any transition is applied. For the
  empty list the method's own test raises. For an empty array that test does not fire
  and the array goes to \<open>self.encode\<close>, whose \<open>ValueError\<close> on a vector that is not a
  state of the space, as the empty vector is, is the one raised.
\<close>

theorem empty_init_raises:
  "Landscape_trajectory L (PyList []) timesteps encode = Inl ValueError \<and>
   Landscape_trajectory (L\<lparr> ls_transitions := tr \<rparr>) (PyList []) timesteps encode
     = Inl ValueError \<and>
   (ss_encode (ls_space L) [] = Inl ValueError \<longrightarrow>
      Landscape_trajectory L (NdArray []) timesteps encode = Inl ValueError \<and>
      Landscape_trajectory (L\<lparr> ls_transitions := tr \<rparr>) (NdArray []) timesteps encode
        = Inl ValueError)"
  by (simp add: Landscape_trajectory_def resolve_init_def)

theorem empty_init_raises_witness:
  "ss_encode (ls_space example_landscape) [] = Inl ValueError \<and>
   Landscape_trajectory example_landscape (PyList []) None None = Inl ValueError \<and>
   Landscape_trajectory example_landscape (NdArray []) (Some 3) None = Inl ValueError"
proof -
  have e: "ss_encode (ls_space example_landscape) [] = Inl ValueError"
    by (simp add: example_landscape_def example_space_def)
  from empty_init_raises [of example_landscape None None]
    empty_init_raises [of example_landscape "Some 3" None] e
  show ?thesis by blast
qed

lemma until_repeat_total:
  "valid_trans tr \<Longrightarrow> 0 \<le> state \<Longrightarrow> state < int (length tr) \<Longrightarrow>
   \<exists>rest. until_repeat tr path state = Inr (path @ rest)"
  using until_repeat_spec [of tr state path] by blast

text \<open>
  Claim C10. \<open>Landscape.trajectory\<close> does not check an integer initial state against
  the state space. In either mode (no step count, or one that is at least 1), returning
  encoded states: for \<open>-volume \<le> init < 0\<close> it returns a path that starts with \<open>init\<close>
  itself and goes on from the successor of the state \<open>volume + init\<close>, the array entry
  the negative index wraps to; for \<open>init \<ge> volume\<close> it raises \<open>IndexError\<close>, the error of
  the array read, not the \<open>ValueError\<close> of a range check.
\<close>

theorem unchecked_index:
  assumes v: "valid_trans (ls_transitions L)"
    and ok: "timesteps = None \<or> (\<exists>t. timesteps = Some t \<and> 1 \<le> t)"
    and enc: "encode \<noteq> Some False"
  shows "(- int (length (ls_transitions L)) \<le> i \<and> i < 0 \<longrightarrow>
            (\<exists>rest. Landscape_trajectory L (PyInt i) timesteps encode =
               Inr (Indices (i # int (ls_transitions L ! nat (int (length (ls_transitions L)) + i))
                             # rest)))) \<and>
         (int (length (ls_transitions L)) \<le> i \<longrightarrow>
            Landscape_trajectory L (PyInt i) timesteps encode = Inl IndexError)"
proof -
  let ?tr = "ls_transitions L"
  let ?n = "int (length ?tr)"
  from enc have r: "resolve_init (ls_space L) (PyInt i) encode = Inr (i, True)"
    by (cases encode) (simp_all add: resolve_init_def)
  have A: "\<exists>rest. Landscape_trajectory L (PyInt i) timesteps encode =
               Inr (Indices (i # int (?tr ! nat (?n + i)) # rest))"
    if neg: "- ?n \<le> i" "i < 0"
  proof -
    define j where "j = nat (?n + i)"
    have jl: "j < length ?tr" using neg by (simp add: j_def)
    have g: "np_get ?tr i = Inr (?tr ! j)" using neg by (simp add: np_get_def Let_def j_def)
    have nx: "?tr ! j < length ?tr" using v jl by (rule valid_transD)
    from ok show ?thesis
    proof
      assume none: "timesteps = None"
      have "int (?tr ! j) \<notin> set [i]" using neg by simp
      moreover from nx have "?tr ! (?tr ! j) < length ?tr" using v by (simp add: valid_transD)
      moreover from until_repeat_total [OF v, of "int (?tr ! (?tr ! j))" "[i, int (?tr ! j)]"] this
      obtain rest where "until_repeat ?tr [i, int (?tr ! j)] (int (?tr ! (?tr ! j)))
            = Inr ([i, int (?tr ! j)] @ rest)" by auto
      ultimately have "until_repeat ?tr [i] (int (?tr ! j)) = Inr (i # int (?tr ! j) # rest)"
        using nx by (subst until_repeat.simps) (simp add: np_get_nat)
      with g have "trajectory_path ?tr i None = Inr (i # int (?tr ! j) # rest)"
        by (simp add: trajectory_path_def)
      with r none show ?thesis
        by (simp add: Landscape_trajectory_def present_def j_def)
    next
      assume "\<exists>t. timesteps = Some t \<and> 1 \<le> t"
      then obtain t where t: "timesteps = Some t" "1 \<le> t" by blast
      then obtain k where k: "nat t = Suc k" by (cases "nat t") simp_all
      from fixed_path_ok [OF v, of "int (?tr ! j)" k] nx
      obtain rest where "fixed_path ?tr k (int (?tr ! j)) = Inr rest" by auto
      with g k t have "trajectory_path ?tr i timesteps = Inr (i # int (?tr ! j) # rest)"
        by (simp add: trajectory_path_def)
      with r show ?thesis
        by (simp add: Landscape_trajectory_def present_def j_def)
    qed
  qed
  have B: "Landscape_trajectory L (PyInt i) timesteps encode = Inl IndexError" if big: "?n \<le> i"
  proof -
    have g: "np_get ?tr i = Inl IndexError" using big by (simp add: np_get_def Let_def)
    from ok show ?thesis
    proof
      assume "timesteps = None"
      with g r show ?thesis by (simp add: Landscape_trajectory_def trajectory_path_def)
    next
      assume "\<exists>t. timesteps = Some t \<and> 1 \<le> t"
      then obtain t where t: "timesteps = Some t" "1 \<le> t" by blast
      then obtain k where k: "nat t = Suc k" by (cases "nat t") simp_all
      with g r t show ?thesis by (simp add: Landscape_trajectory_def trajectory_path_def)
    qed
  qed
  from A B show ?thesis by blast
qed

theorem unchecked_index_witness:
  "valid_trans (ls_transitions example_landscape) \<and>
   - int (length (ls_transitions example_landscape)) \<le> - 4 \<and> (- 4 :: int) < 0 \<and>
   int (length (ls_transitions example_landscape)) \<le> 4 \<and>
   Landscape_trajectory example_landscape (PyInt (- 4)) None None = Inr (Indices [- 4, 1, 3]) \<and>
   Landscape_trajectory example_landscape (PyInt 4) None None = Inl IndexError"
proof -
  have tr: "ls_transitions example_landscape = [1, 3, 3, 3]"
    by (simp add: example_landscape_def)
  have l: "- int (length (ls_transitions example_landscape)) \<le> - 4"
    "int (length (ls_transitions example_landscape)) \<le> 4"
    by (simp_all add: tr)
  have ok: "(None :: int option) = None \<or> (\<exists>t. None = Some t \<and> 1 \<le> t)" by simp
  have e: "(None :: bool option) \<noteq> Some False" by simp
  note t4 = unchecked_index [OF example_valid ok e, of 4]
  have b: "Landscape_trajectory example_landscape (PyInt 4) None None = Inl IndexError"
    using t4 l(2) by blast
  have a: "Landscape_trajectory example_landscape (PyInt (- 4)) None None
             = Inr (Indices [- 4, 1, 3])"
    by (simp add: Landscape_trajectory_def resolve_init_def trajectory_path_def tr np_get_def
        until_repeat.simps present_def)
  from example_valid l a b show ?thesis by simp
qed

subsection \<open>The lazily computed decomposition\<close>

lemma read_expounded:
  assumes "ls_expounded L" "ls_basins L = Some bs" "ls_attractors L = Some as"
  shows "read_property L a = Inr (cached (ls_transitions L) bs as a, L)"
  using assms
  by (cases a)
     (simp_all add: read_property_def cached_def Landscape_transitions_def
        Landscape_attractors_def Landscape_basins_def read_attr_def)

lemma read_all_expounded:
  assumes "ls_expounded L" "ls_basins L = Some bs" "ls_attractors L = Some as"
  shows "read_all L accs = Inr (map (cached (ls_transitions L) bs as) accs, L)"
  by (induction accs) (simp_all add: read_expounded [OF assms])

lemma read_fresh:
  assumes "\<not> ls_expounded L" "expound (ls_transitions L) = Inr (bs, as)"
  shows "read_property L a =
           Inr (cached (ls_transitions L) bs as a,
                if a = ReadTransitions then L else expounded_with L bs as)"
  using assms
  by (cases a)
     (simp_all add: read_property_def cached_def Landscape_transitions_def
        Landscape_attractors_def Landscape_basins_def read_attr_def Landscape_expound_def
        expounded_with_def)

lemma read_all_fresh:
  assumes "\<not> ls_expounded L" "expound (ls_transitions L) = Inr (bs, as)"
  shows "read_all L accs =
           Inr (map (cached (ls_transitions L) bs as) accs,
                if set accs \<subseteq> {ReadTransitions} then L else expounded_with L bs as)"
proof (induction accs)
  case Nil
  show ?case by simp
next
  case (Cons a accs)
  show ?case
  proof (cases "a = ReadTransitions")
    case True
    with Cons read_fresh [OF assms, of a] show ?thesis by simp
  next
    case False
    let ?L1 = "expounded_with L bs as"
    have "read_all ?L1 accs = Inr (map (cached (ls_transitions ?L1) bs as) accs, ?L1)"
      by (rule read_all_expounded) (simp_all add: expounded_with_def)
    moreover have "ls_transitions ?L1 = ls_transitions L" by (simp add: expounded_with_def)
    ultimately show ?thesis using False read_fresh [OF assms, of a] by simp
  qed
qed

text \<open>
  Claim C8. For a landscape as its constructor leaves it: the flag \<open>__expounded\<close> is
  not set; reading \<open>transitions\<close> returns the array and changes nothing; the first read
  of \<open>attractors\<close> or \<open>basins\<close> runs the decomposition and changes only \<open>__basins\<close>,
  \<open>__attractors\<close> and the flag; every read after that returns the stored values and
  leaves the landscape as it is. So after any sequence of reads the landscape is either
  untouched (only \<open>transitions\<close> was read) or in the state one run of the decomposition
  produces, and all reads of a property gave the same value. With the flag set, a read
  of \<open>attractors\<close> or \<open>basins\<close> is the read of the attribute and nothing else.
\<close>

theorem decomposition_once:
  assumes init: "Landscape_init net size' = Inr L"
    and v: "valid_trans (ls_transitions L)"
  shows "\<exists>bs as.
           expound (ls_transitions L) = Inr (bs, as) \<and> \<not> ls_expounded L \<and>
           Landscape_transitions L = (ls_transitions L, L) \<and>
           Landscape_attractors L = Inr (as, expounded_with L bs as) \<and>
           Landscape_basins L = Inr (bs, expounded_with L bs as) \<and>
           Landscape_transitions (expounded_with L bs as)
             = (ls_transitions L, expounded_with L bs as) \<and>
           Landscape_attractors (expounded_with L bs as) = Inr (as, expounded_with L bs as) \<and>
           Landscape_basins (expounded_with L bs as) = Inr (bs, expounded_with L bs as) \<and>
           (\<forall>accs. read_all L accs =
              Inr (map (cached (ls_transitions L) bs as) accs,
                   if set accs \<subseteq> {ReadTransitions} then L else expounded_with L bs as)) \<and>
           (\<forall>L'. ls_expounded L' \<longrightarrow>
              Landscape_attractors L' = read_attr (ls_attractors L') L' \<and>
              Landscape_basins L' = read_attr (ls_basins L') L')"
proof -
  from init have fresh: "\<not> ls_expounded L"
    by (auto simp: Landscape_init_def Let_def split: if_splits)
  from expound_result [OF v] obtain bs as where e: "expound (ls_transitions L) = Inr (bs, as)"
    by blast
  let ?L1 = "expounded_with L bs as"
  have t0: "Landscape_transitions L = (ls_transitions L, L)"
    by (simp add: Landscape_transitions_def)
  have a0: "Landscape_attractors L = Inr (as, ?L1)"
    using fresh e
    by (simp add: Landscape_attractors_def Landscape_expound_def read_attr_def expounded_with_def)
  have b0: "Landscape_basins L = Inr (bs, ?L1)"
    using fresh e
    by (simp add: Landscape_basins_def Landscape_expound_def read_attr_def expounded_with_def)
  have t1: "Landscape_transitions ?L1 = (ls_transitions L, ?L1)"
    by (simp add: Landscape_transitions_def expounded_with_def)
  have a1: "Landscape_attractors ?L1 = Inr (as, ?L1)"
    by (simp add: Landscape_attractors_def read_attr_def expounded_with_def)
  have b1: "Landscape_basins ?L1 = Inr (bs, ?L1)"
    by (simp add: Landscape_basins_def read_attr_def expounded_with_def)
  have seq: "\<forall>accs. read_all L accs =
              Inr (map (cached (ls_transitions L) bs as) accs,
                   if set accs \<subseteq> {ReadTransitions} then L else ?L1)"
    using read_all_fresh [OF fresh e] by blast
  have c: "\<forall>L'. ls_expounded L' \<longrightarrow>
              Landscape_attractors L' = read_attr (ls_attractors L') L' \<and>
              Landscape_basins L' = read_attr (ls_basins L') L'"
    by (simp add: Landscape_attractors_def Landscape_basins_def)
  from e fresh t0 a0 b0 t1 a1 b1 seq c show ?thesis by blast
qed

theorem decomposition_once_witness:
  "Landscape_init example_net None = Inr example_landscape \<and>
   valid_trans (ls_transitions example_landscape) \<and>
   expound (ls_transitions example_landscape) = Inr ([0, 0, 0, 0], [[3]]) \<and>
   read_all example_landscape [ReadTransitions, ReadBasins, ReadAttractors, ReadBasins]
     = Inr ([GotTransitions [1, 3, 3, 3], GotBasins [0, 0, 0, 0], GotAttractors [[3]],
             GotBasins [0, 0, 0, 0]],
            expounded_with example_landscape [0, 0, 0, 0] [[3]])"
proof -
  have tr: "ls_transitions example_landscape = [1, 3, 3, 3]"
    by (simp add: example_landscape_def)
  have e: "expound (ls_transitions example_landscape) = Inr ([0, 0, 0, 0], [[3]])"
    unfolding tr by code_simp
  from decomposition_once [OF example_landscape_init example_valid] e
  have "\<forall>accs. read_all example_landscape accs =
          Inr (map (cached (ls_transitions example_landscape) [0, 0, 0, 0] [[3]]) accs,
               if set accs \<subseteq> {ReadTransitions} then example_landscape
               else expounded_with example_landscape [0, 0, 0, 0] [[3]])"
    by auto
  from this [rule_format, of "[ReadTransitions, ReadBasins, ReadAttractors, ReadBasins]"]
  have "read_all example_landscape [ReadTransitions, ReadBasins, ReadAttractors, ReadBasins]
     = Inr ([GotTransitions [1, 3, 3, 3], GotBasins [0, 0, 0, 0], GotAttractors [[3]],
             GotBasins [0, 0, 0, 0]],
            expounded_with example_landscape [0, 0, 0, 0] [[3]])"
    by (simp add: cached_def tr del: read_all.simps)
  with example_landscape_init example_valid e show ?thesis by blast
qed

end
